theory Spec2Isabelle
  imports Main "HOL-Library.AList"
begin

section \<open>Data model of the scoped resolution engine\<close>

text \<open>
  The engine is the class \<open>DependencyManagement\<close>. It keeps one tsyringe container and a
  family of JavaScript \<open>Map\<close>s. A \<open>Map\<close> is modelled as an association list in insertion
  order: \<open>has\<close>/\<open>get\<close> are \<open>map_of\<close>, \<open>set\<close> is \<open>AList.update\<close> (an existing key keeps its
  position, a new key goes last), \<open>entries()\<close> is the list itself.

  A token is either a registered symbol \<open>Symbol.for(key)\<close>, which is identified by its key
  (two calls of \<open>Symbol.for\<close> return the same symbol exactly when the keys are equal), or a
  plain string token.

  A class (\<open>Function\<close>) has a \<open>name\<close> and an identity of its own: two different classes may
  carry the same name. An instance is either the engine object itself or an object built
  by \<open>new\<close>. Object identity (reference equality) is the allocation number.
\<close>

datatype token = Sym string | Str string

datatype ctor = Ctor (ctor_name: string) (ctor_ref: nat)

datatype "instance" = Engine | Obj nat ctor

datatype provider = UseValue "instance" | UseClass ctor

datatype lifecycle = Transient | Singleton

datatype registration =
  Registration (reg_provider: provider) (reg_lifecycle: lifecycle) (reg_instance: "instance option")

datatype error =
    UnregisteredToken token
  | ComponentScopeFailed string
  | RouterScopeFailed string

datatype scope_kind = RootScope | RouterScope | ComponentScope

datatype member = ByName string | ByClass ctor

type_synonym 'v table = "(string \<times> 'v) list"

type_synonym registry = "token \<Rightarrow> registration list"

record state =
  container :: registry
  rootScope :: "token table"
  routerScopes :: "token table table"
  componentScopes :: "token table table"
  currentSelector :: "string option"
  currentRouterSelector :: "string option"
  componentToRouter :: "string table"
  rootClasses :: "ctor table"
  routerClasses :: "ctor table table"
  componentClasses :: "ctor table table"
  allocated :: nat

section \<open>The container\<close>

text \<open>
  The container is tsyringe's \<open>DependencyContainer\<close>, an external library that the engine
  calls and whose code is not part of the repository. The model keeps what the calls made
  by the engine observe, following the library's published behaviour:

  \<^item> the registry maps a token to the list of its registrations, \<open>register\<close> appends, and
    \<open>resolve\<close> uses the last one;
  \<^item> \<open>isRegistered\<close> holds when the list is not empty;
  \<^item> \<open>resolve\<close> of a symbol or string token with no registration raises; a value provider
    yields its value; a class provider with the singleton lifecycle builds the object on
    first use and caches it in the registration;
  \<^item> \<open>reset\<close> empties the registry;
  \<^item> \<open>clearInstances\<close> drops the registrations made with a value provider and empties
    the cache of the others.

  The engine's container is a child of the global container; the model takes the global
  container to hold no registration for the tokens used here. A constructor is opaque:
  \<open>new\<close> returns a fresh object of the class (field \<open>allocated\<close> counts the objects built so
  far) and has no other effect on the engine.
\<close>

definition isRegistered :: "registry \<Rightarrow> token \<Rightarrow> bool" where
  "isRegistered c t = (c t \<noteq> [])"

definition register :: "token \<Rightarrow> provider \<Rightarrow> lifecycle \<Rightarrow> registry \<Rightarrow> registry" where
  "register t p l c = c(t := c t @ [Registration p l None])"

definition is_value_provider :: "provider \<Rightarrow> bool" where
  "is_value_provider p = (case p of UseValue v \<Rightarrow> True | UseClass k \<Rightarrow> False)"

definition clearInstances :: "registry \<Rightarrow> registry" where
  "clearInstances c =
     (\<lambda>t. map (\<lambda>r. Registration (reg_provider r) (reg_lifecycle r) None)
              (filter (\<lambda>r. \<not> is_value_provider (reg_provider r)) (c t)))"

definition createChildContainer :: registry where
  "createChildContainer = (\<lambda>t. [])"

definition container_resolve :: "token \<Rightarrow> state \<Rightarrow> (error + instance) \<times> state" where
  "container_resolve t s =
     (case container s t of
        [] \<Rightarrow> (Inl (UnregisteredToken t), s)
      | r # rs \<Rightarrow>
          (case reg_provider (last (r # rs)) of
             UseValue v \<Rightarrow> (Inr v, s)
           | UseClass k \<Rightarrow>
               (if reg_lifecycle (last (r # rs)) = Singleton then
                  (case reg_instance (last (r # rs)) of
                     Some i \<Rightarrow> (Inr i, s)
                   | None \<Rightarrow>
                       (Inr (Obj (allocated s) k),
                        s\<lparr>container := (container s)
                             (t := butlast (r # rs) @
                                   [Registration (UseClass k) Singleton (Some (Obj (allocated s) k))]),
                          allocated := Suc (allocated s)\<rparr>))
                else (Inr (Obj (allocated s) k), s\<lparr>allocated := Suc (allocated s)\<rparr>))))"

section \<open>The engine\<close>

text \<open>The state built by the private constructor: every map empty, and the engine registered
  as a value under the string token \<open>DependencyManagement\<close>.\<close>

definition getInstance :: state where
  "getInstance =
     \<lparr>container = register (Str ''DependencyManagement'') (UseValue Engine) Transient createChildContainer,
      rootScope = [], routerScopes = [], componentScopes = [],
      currentSelector = None, currentRouterSelector = None,
      componentToRouter = [],
      rootClasses = [], routerClasses = [], componentClasses = [],
      allocated = 0\<rparr>"

definition setContext :: "string option \<Rightarrow> string option \<Rightarrow> state \<Rightarrow> state" where
  "setContext selector routerSelector s =
     s\<lparr>currentSelector := selector, currentRouterSelector := routerSelector\<rparr>"

definition clearContext :: "state \<Rightarrow> state" where
  "clearContext s = s\<lparr>currentSelector := None, currentRouterSelector := None\<rparr>"

definition getToken :: "string \<Rightarrow> string \<Rightarrow> token" where
  "getToken className scope = Sym (scope @ '':'' @ className)"

text \<open>The body shared by the three registration loops: a provider whose name the scope map
  does not have yet gets a token, an entry in the scope map and in the class map, and a
  singleton registration unless the token is registered already.\<close>

definition register_in_scope ::
  "string \<Rightarrow> ctor \<Rightarrow> token table \<times> ctor table \<times> registry \<Rightarrow> token table \<times> ctor table \<times> registry" where
  "register_in_scope scope P = (\<lambda>(scopeMap, classMap, c).
     if map_of scopeMap (ctor_name P) = None then
       (AList.update (ctor_name P) (getToken (ctor_name P) scope) scopeMap,
        AList.update (ctor_name P) P classMap,
        if \<not> isRegistered c (getToken (ctor_name P) scope)
        then register (getToken (ctor_name P) scope) (UseClass P) Singleton c
        else c)
     else (scopeMap, classMap, c))"

definition setupRootContainer :: "ctor \<Rightarrow> state \<Rightarrow> state" where
  "setupRootContainer Entity s =
     (case register_in_scope ''root'' Entity (rootScope s, rootClasses s, container s) of
        (scopeMap, classMap, c) \<Rightarrow> s\<lparr>rootScope := scopeMap, rootClasses := classMap, container := c\<rparr>)"

definition ensure_component :: "string \<Rightarrow> state \<Rightarrow> state" where
  "ensure_component selector s =
     (if map_of (componentScopes s) selector = None
      then s\<lparr>componentScopes := AList.update selector [] (componentScopes s),
             componentClasses := AList.update selector [] (componentClasses s)\<rparr>
      else s)"

definition setupComponentContainer :: "string \<Rightarrow> ctor list \<Rightarrow> state \<Rightarrow> error + state" where
  "setupComponentContainer selector Providers s =
     (case map_of (componentScopes (ensure_component selector s)) selector of
        None \<Rightarrow> Inl (ComponentScopeFailed selector)
      | Some scopeMap \<Rightarrow>
         (case map_of (componentClasses (ensure_component selector s)) selector of
            None \<Rightarrow> Inl (ComponentScopeFailed selector)
          | Some classMap \<Rightarrow>
             (case fold (register_in_scope (''component:'' @ selector)) Providers
                     (scopeMap, classMap, container s) of
                (scopeMap', classMap', c) \<Rightarrow>
                  Inr ((ensure_component selector s)
                        \<lparr>componentScopes :=
                            AList.update selector scopeMap' (componentScopes (ensure_component selector s)),
                         componentClasses :=
                            AList.update selector classMap' (componentClasses (ensure_component selector s)),
                         container := c\<rparr>))))"

definition ensure_router :: "string \<Rightarrow> state \<Rightarrow> state" where
  "ensure_router selector s =
     (if map_of (routerScopes s) selector = None
      then s\<lparr>routerScopes := AList.update selector [] (routerScopes s),
             routerClasses := AList.update selector [] (routerClasses s)\<rparr>
      else s)"

definition member_name :: "member \<Rightarrow> string" where
  "member_name m = (case m of ByName n \<Rightarrow> n | ByClass k \<Rightarrow> ctor_name k)"

definition setupRouterContainer :: "member list \<Rightarrow> ctor list \<Rightarrow> string \<Rightarrow> state \<Rightarrow> error + state" where
  "setupRouterContainer Components Providers selector s =
     (case map_of (routerScopes (ensure_router selector s)) selector of
        None \<Rightarrow> Inl (RouterScopeFailed selector)
      | Some scopeMap \<Rightarrow>
         (case map_of (routerClasses (ensure_router selector s)) selector of
            None \<Rightarrow> Inl (RouterScopeFailed selector)
          | Some classMap \<Rightarrow>
             (case fold (register_in_scope (''router:'' @ selector)) Providers
                     (scopeMap, classMap, container s) of
                (scopeMap', classMap', c) \<Rightarrow>
                  Inr ((ensure_router selector s)
                        \<lparr>componentToRouter :=
                            fold (\<lambda>m. AList.update (member_name m) selector) Components
                              (componentToRouter s),
                         routerScopes :=
                            AList.update selector scopeMap' (routerScopes (ensure_router selector s)),
                         routerClasses :=
                            AList.update selector classMap' (routerClasses (ensure_router selector s)),
                         container := c\<rparr>))))"

definition getRouterForComponent :: "state \<Rightarrow> string \<Rightarrow> string option" where
  "getRouterForComponent s componentName = map_of (componentToRouter s) componentName"

text \<open>JavaScript truthiness of an optional string: \<open>undefined\<close> and the empty string are
  both falsy. \<open>scope_token\<close> is \<open>scopes.get(selector)?.get(className)\<close>.\<close>

definition truthy :: "string option \<Rightarrow> bool" where
  "truthy x = (case x of None \<Rightarrow> False | Some v \<Rightarrow> v \<noteq> [])"

definition scope_token :: "token table table \<Rightarrow> string \<Rightarrow> string \<Rightarrow> token option" where
  "scope_token scopes selector className =
     (case map_of scopes selector of None \<Rightarrow> None | Some scopeMap \<Rightarrow> map_of scopeMap className)"

definition selected_token :: "token table table \<Rightarrow> string option \<Rightarrow> string \<Rightarrow> token option" where
  "selected_token scopes selector className =
     (case selector of
        None \<Rightarrow> None
      | Some sel \<Rightarrow> if sel = [] then None else scope_token scopes sel className)"

definition usable :: "state \<Rightarrow> token option \<Rightarrow> bool" where
  "usable s tok = (case tok of None \<Rightarrow> False | Some t \<Rightarrow> isRegistered (container s) t)"

definition resolve_token :: "token \<Rightarrow> state \<Rightarrow> (error + instance option) \<times> state" where
  "resolve_token t s =
     (case container_resolve t s of
        (Inl e, s') \<Rightarrow> (Inl e, s')
      | (Inr i, s') \<Rightarrow> (Inr (Some i), s'))"

definition parent_selector :: "state \<Rightarrow> string option \<Rightarrow> string option" where
  "parent_selector s componentClassName =
     (case componentClassName of
        None \<Rightarrow> None
      | Some n \<Rightarrow> if n = [] then None else getRouterForComponent s n)"

definition resolve ::
  "string \<Rightarrow> string option \<Rightarrow> string option \<Rightarrow> string option \<Rightarrow> state
     \<Rightarrow> (error + instance option) \<times> state" where
  "resolve className componentSelector routerSelector componentClassName s =
     (if className = ''DependencyManagement'' then resolve_token (Str ''DependencyManagement'') s
      else if usable s (selected_token (componentScopes s) componentSelector className)
      then resolve_token (the (selected_token (componentScopes s) componentSelector className)) s
      else if usable s (selected_token (routerScopes s) routerSelector className)
      then resolve_token (the (selected_token (routerScopes s) routerSelector className)) s
      else if truthy (parent_selector s componentClassName)
            \<and> parent_selector s componentClassName \<noteq> routerSelector
            \<and> usable s (selected_token (routerScopes s) (parent_selector s componentClassName) className)
      then resolve_token
             (the (selected_token (routerScopes s) (parent_selector s componentClassName) className)) s
      else if usable s (map_of (rootScope s) className)
      then resolve_token (the (map_of (rootScope s) className)) s
      else (Inr None, s))"

definition get :: "string \<Rightarrow> state \<Rightarrow> (error + instance option) \<times> state" where
  "get className s = resolve className (currentSelector s) (currentRouterSelector s) None s"

definition reregister_table :: "token table \<Rightarrow> ctor table \<Rightarrow> registry \<Rightarrow> registry" where
  "reregister_table scopeMap classMap =
     fold (\<lambda>(className, tok) c.
             case map_of classMap className of
               None \<Rightarrow> c
             | Some P \<Rightarrow> register tok (UseClass P) Singleton c) scopeMap"

definition reregister_scopes :: "token table table \<Rightarrow> ctor table table \<Rightarrow> registry \<Rightarrow> registry" where
  "reregister_scopes scopes classes =
     fold (\<lambda>(selector, scopeMap) c.
             case map_of classes selector of
               None \<Rightarrow> c
             | Some classMap \<Rightarrow> reregister_table scopeMap classMap c) scopes"

definition reregisterAll :: "state \<Rightarrow> state" where
  "reregisterAll s =
     s\<lparr>container :=
         reregister_scopes (componentScopes s) (componentClasses s)
           (reregister_scopes (routerScopes s) (routerClasses s)
              (reregister_table (rootScope s) (rootClasses s) (container s)))\<rparr>"

definition resetScope :: "scope_kind \<Rightarrow> string option \<Rightarrow> state \<Rightarrow> state" where
  "resetScope scope selector s = reregisterAll (s\<lparr>container := createChildContainer\<rparr>)"

definition resetClass :: "string \<Rightarrow> state \<Rightarrow> state" where
  "resetClass className s = reregisterAll (s\<lparr>container := createChildContainer\<rparr>)"

definition resetAll :: "state \<Rightarrow> state" where
  "resetAll s = s\<lparr>container := clearInstances (container s)\<rparr>"

section \<open>Sequences of calls\<close>

text \<open>A client drives the engine by a sequence of calls of its public methods. A call that
  raises leaves the state as it was when it raised, and the client may go on.\<close>

datatype call =
    SetContext "string option" "string option"
  | ClearContext
  | SetupRoot ctor
  | SetupComponent string "ctor list"
  | SetupRouter "member list" "ctor list" string
  | Resolve string "string option" "string option" "string option"
  | Get string
  | ResetScope scope_kind "string option"
  | ResetClass string
  | ResetAll

definition state_after :: "error + state \<Rightarrow> state \<Rightarrow> state" where
  "state_after r s = (case r of Inl e \<Rightarrow> s | Inr s' \<Rightarrow> s')"

fun exec :: "call \<Rightarrow> state \<Rightarrow> state" where
  "exec (SetContext a b) s = setContext a b s"
| "exec ClearContext s = clearContext s"
| "exec (SetupRoot E) s = setupRootContainer E s"
| "exec (SetupComponent sel Ps) s = state_after (setupComponentContainer sel Ps s) s"
| "exec (SetupRouter Cs Ps sel) s = state_after (setupRouterContainer Cs Ps sel s) s"
| "exec (Resolve n a b k) s = snd (resolve n a b k s)"
| "exec (Get n) s = snd (get n s)"
| "exec (ResetScope k sel) s = resetScope k sel s"
| "exec (ResetClass n) s = resetClass n s"
| "exec ResetAll s = resetAll s"

definition run :: "call list \<Rightarrow> state \<Rightarrow> state" where
  "run calls s = fold exec calls s"

fun invalidating :: "call \<Rightarrow> bool" where
  "invalidating (ResetScope k sel) = True"
| "invalidating (ResetClass n) = True"
| "invalidating ResetAll = True"
| "invalidating c = False"

text \<open>The instance cached for a token: the one a singleton class registration holds.\<close>

definition cached :: "state \<Rightarrow> token \<Rightarrow> instance option" where
  "cached s t =
     (case container s t of
        [] \<Rightarrow> None
      | r # rs \<Rightarrow>
          (case reg_provider (last (r # rs)) of
             UseValue v \<Rightarrow> None
           | UseClass k \<Rightarrow>
               if reg_lifecycle (last (r # rs)) = Singleton then reg_instance (last (r # rs)) else None))"

section \<open>Invariant of the states the engine reaches\<close>

text \<open>
  In every state reached from the constructor by calls of the public methods, each scope
  map has distinct names, each of its entries carries the token derived from its name and
  scope key, that token is registered, and the class map beside it has the name too. Every
  registration under a symbol token is a singleton class registration, every registration
  under a string token is a value, and every cached object was allocated before.
\<close>

definition keeps :: "registry \<Rightarrow> registry \<Rightarrow> bool" where
  "keeps c c' = (\<forall>k. c (Sym k) \<noteq> [] \<longrightarrow> c' (Sym k) \<noteq> [])"

definition reg_ok :: "nat \<Rightarrow> token \<Rightarrow> registration \<Rightarrow> bool" where
  "reg_ok n t r =
     ((case t of Sym k \<Rightarrow> \<not> is_value_provider (reg_provider r) \<and> reg_lifecycle r = Singleton
               | Str k \<Rightarrow> is_value_provider (reg_provider r))
      \<and> (case reg_instance r of None \<Rightarrow> True | Some Engine \<Rightarrow> False | Some (Obj j P) \<Rightarrow> j < n))"

definition registry_ok :: "registry \<Rightarrow> nat \<Rightarrow> bool" where
  "registry_ok c n = (\<forall>t. \<forall>r\<in>set (c t). reg_ok n t r)"

definition table_ok :: "string \<Rightarrow> token table \<Rightarrow> ctor table \<Rightarrow> registry \<Rightarrow> bool" where
  "table_ok key m cm c =
     (distinct (map fst m) \<and>
      (\<forall>n t. map_of m n = Some t \<longrightarrow> t = getToken n key \<and> c t \<noteq> [] \<and> map_of cm n \<noteq> None))"

definition scopes_ok :: "string \<Rightarrow> token table table \<Rightarrow> ctor table table \<Rightarrow> registry \<Rightarrow> bool" where
  "scopes_ok kind scopes classes c =
     (distinct (map fst scopes) \<and>
      (\<forall>sel m. map_of scopes sel = Some m \<longrightarrow>
         (\<exists>cm. map_of classes sel = Some cm \<and> table_ok (kind @ sel) m cm c)))"

definition inv :: "state \<Rightarrow> bool" where
  "inv s =
     (table_ok ''root'' (rootScope s) (rootClasses s) (container s) \<and>
      scopes_ok ''router:'' (routerScopes s) (routerClasses s) (container s) \<and>
      scopes_ok ''component:'' (componentScopes s) (componentClasses s) (container s) \<and>
      registry_ok (container s) (allocated s))"

section \<open>Predicates of the statements\<close>

text \<open>Two states with the same scope maps, class maps, membership records and context.\<close>

definition same_tables :: "state \<Rightarrow> state \<Rightarrow> bool" where
  "same_tables s s' =
     (rootScope s' = rootScope s \<and> routerScopes s' = routerScopes s \<and>
      componentScopes s' = componentScopes s \<and> rootClasses s' = rootClasses s \<and>
      routerClasses s' = routerClasses s \<and> componentClasses s' = componentClasses s \<and>
      componentToRouter s' = componentToRouter s \<and>
      currentSelector s' = currentSelector s \<and> currentRouterSelector s' = currentRouterSelector s)"

text \<open>A registry that differs from another by fresh singleton class registrations under symbol tokens.\<close>

definition grows :: "registry \<Rightarrow> registry \<Rightarrow> bool" where
  "grows c c' =
     (\<forall>t. \<exists>xs. c' t = c t @ xs \<and>
        (\<forall>x\<in>set xs. (\<exists>P. x = Registration (UseClass P) Singleton None) \<and> (\<exists>k. t = Sym k)))"

text \<open>A scope map all of whose tokens are symbols.\<close>

definition sym_table :: "token table \<Rightarrow> bool" where
  "sym_table m = (\<forall>e\<in>set m. \<exists>k. snd e = Sym k)"

text \<open>A family of scope maps all of whose tokens are symbols.\<close>

definition sym_scopes :: "token table table \<Rightarrow> bool" where
  "sym_scopes scopes = (\<forall>e\<in>set scopes. sym_table (snd e))"

text \<open>Calling a fallible operation a second time on the state the first call returned.\<close>

definition twice :: "(state \<Rightarrow> error + state) \<Rightarrow> state \<Rightarrow> error + state" where
  "twice f s = (case f s of Inl e \<Rightarrow> Inl e | Inr s' \<Rightarrow> f s')"

text \<open>A registry that differs from another at most by one registration for tokens that had none.\<close>

definition once :: "registry \<Rightarrow> registry \<Rightarrow> bool" where
  "once c c' = (\<forall>t. c' t = c t \<or> (c t = [] \<and> length (c' t) = 1))"

text \<open>What a setup call may do to the container: build nothing, register once.\<close>

definition setup_effect :: "state \<Rightarrow> state \<Rightarrow> bool" where
  "setup_effect s s' = (allocated s' = allocated s \<and> once (container s) (container s'))"

text \<open>The entries of the scope map of a selector that carry a given name.\<close>

definition entries_for :: "token table table \<Rightarrow> string \<Rightarrow> string \<Rightarrow> (string \<times> token) list" where
  "entries_for scopes selector className =
     (case map_of scopes selector of
        None \<Rightarrow> []
      | Some scopeMap \<Rightarrow> filter (\<lambda>e. fst e = className) scopeMap)"

text \<open>The tokens held by the scope maps of a state.\<close>

definition minted :: "state \<Rightarrow> token set" where
  "minted s =
     snd ` set (rootScope s)
     \<union> (\<Union>e\<in>set (routerScopes s). snd ` set (snd e))
     \<union> (\<Union>e\<in>set (componentScopes s). snd ` set (snd e))"

text \<open>The token of a name in the scope map of an optional selector, whatever the selector.\<close>

definition lookup_in :: "token table table \<Rightarrow> string option \<Rightarrow> string \<Rightarrow> token option" where
  "lookup_in scopes selector className =
     (case selector of None \<Rightarrow> None | Some sel \<Rightarrow> scope_token scopes sel className)"

text \<open>The router selector recorded for an optional owner name.\<close>

definition owner_router :: "state \<Rightarrow> string option \<Rightarrow> string option" where
  "owner_router s componentClassName =
     (case componentClassName of None \<Rightarrow> None | Some n \<Rightarrow> getRouterForComponent s n)"

text \<open>The registration the constructor makes for the engine is in place.\<close>

definition engine_registered :: "state \<Rightarrow> bool" where
  "engine_registered s =
     (container s (Str ''DependencyManagement'') = [Registration (UseValue Engine) Transient None])"

text \<open>What the replay of a reset registers for a token: one singleton registration for every
  scope-map entry that carries the token and has a retained class, in the order of the maps.\<close>

definition replay_table :: "token \<Rightarrow> token table \<Rightarrow> ctor table \<Rightarrow> registration list" where
  "replay_table t scopeMap classMap =
     concat (map (\<lambda>(className, tok).
                    if tok = t
                    then (case map_of classMap className of
                            None \<Rightarrow> []
                          | Some P \<Rightarrow> [Registration (UseClass P) Singleton None])
                    else []) scopeMap)"

definition replay_scopes :: "token \<Rightarrow> token table table \<Rightarrow> ctor table table \<Rightarrow> registration list" where
  "replay_scopes t scopes classes =
     concat (map (\<lambda>(selector, scopeMap).
                    case map_of classes selector of
                      None \<Rightarrow> []
                    | Some classMap \<Rightarrow> replay_table t scopeMap classMap) scopes)"

lemma keeps_refl: "keeps c c"
  by (simp add: keeps_def)

lemma keeps_trans: "keeps a b \<Longrightarrow> keeps b c \<Longrightarrow> keeps a c"
  by (simp add: keeps_def)

lemma table_ok_keeps: "table_ok key m cm c \<Longrightarrow> keeps c c' \<Longrightarrow> table_ok key m cm c'"
  unfolding table_ok_def keeps_def getToken_def by blast

lemma scopes_ok_keeps: "scopes_ok kind scopes classes c \<Longrightarrow> keeps c c' \<Longrightarrow> scopes_ok kind scopes classes c'"
  unfolding scopes_ok_def using table_ok_keeps by blast

lemma keeps_register: "keeps c (register t p l c)"
  by (simp add: keeps_def register_def)

lemma registry_ok_register_class:
  "registry_ok c n \<Longrightarrow> registry_ok (register (Sym k) (UseClass P) Singleton c) n"
  unfolding registry_ok_def register_def
proof (intro allI ballI)
  fix t r
  assume a: "\<forall>t. \<forall>r\<in>set (c t). reg_ok n t r"
    and r: "r \<in> set ((c(Sym k := c (Sym k) @ [Registration (UseClass P) Singleton None])) t)"
  show "reg_ok n t r"
  proof (cases "t = Sym k")
    case True
    with r have "r \<in> set (c (Sym k)) \<or> r = Registration (UseClass P) Singleton None" by auto
    then show ?thesis
    proof
      assume "r \<in> set (c (Sym k))"
      with a True show ?thesis by blast
    next
      assume "r = Registration (UseClass P) Singleton None"
      with True show ?thesis by (simp add: reg_ok_def is_value_provider_def)
    qed
  next
    case False
    with r a show ?thesis by simp
  qed
qed

lemma register_in_scope_table_ok:
  assumes "table_ok key m cm c" and "register_in_scope key P (m, cm, c) = (m', cm', c')"
  shows "table_ok key m' cm' c'"
  using assms
  by (auto simp: register_in_scope_def table_ok_def distinct_update update_conv' isRegistered_def
      register_def split: if_splits)

lemma register_in_scope_keeps:
  assumes "register_in_scope key P (m, cm, c) = (m', cm', c')"
  shows "keeps c c'"
  using assms
  by (auto simp: register_in_scope_def keeps_refl keeps_register split: if_splits)

lemma register_in_scope_registry_ok:
  assumes "registry_ok c n" and "register_in_scope key P (m, cm, c) = (m', cm', c')"
  shows "registry_ok c' n"
  using assms
  by (auto simp: register_in_scope_def getToken_def registry_ok_register_class split: if_splits)

lemma fold_register_in_scope:
  assumes "table_ok key m cm c" and "fold (register_in_scope key) Ps (m, cm, c) = (m', cm', c')"
  shows "table_ok key m' cm' c' \<and> keeps c c' \<and> (registry_ok c n \<longrightarrow> registry_ok c' n)"
  using assms
proof (induction Ps arbitrary: m cm c)
  case Nil
  then show ?case by (simp add: keeps_refl)
next
  case (Cons P Ps)
  obtain m1 cm1 c1 where step: "register_in_scope key P (m, cm, c) = (m1, cm1, c1)"
    by (cases "register_in_scope key P (m, cm, c)") auto
  from Cons.prems(2) step have rest: "fold (register_in_scope key) Ps (m1, cm1, c1) = (m', cm', c')"
    by simp
  have ok1: "table_ok key m1 cm1 c1"
    using register_in_scope_table_ok [OF Cons.prems(1) step] .
  from Cons.IH [OF ok1 rest] register_in_scope_keeps [OF step]
    register_in_scope_registry_ok [OF _ step]
  show ?case by (blast intro: keeps_trans)
qed

lemma table_ok_empty: "table_ok key [] [] c"
  by (simp add: table_ok_def)

lemma scopes_ok_update:
  assumes "scopes_ok kind scopes classes c" and "table_ok (kind @ sel) m cm c"
  shows "scopes_ok kind (AList.update sel m scopes) (AList.update sel cm classes) c"
  unfolding scopes_ok_def
proof (intro conjI allI impI)
  show "distinct (map fst (AList.update sel m scopes))"
    using assms(1) by (simp add: scopes_ok_def distinct_update)
next
  fix sel' m0
  assume a: "map_of (AList.update sel m scopes) sel' = Some m0"
  show "\<exists>cm0. map_of (AList.update sel cm classes) sel' = Some cm0 \<and> table_ok (kind @ sel') m0 cm0 c"
  proof (cases "sel' = sel")
    case True
    with a have "m0 = m" by (simp add: update_conv')
    with True assms(2) show ?thesis by (simp add: update_conv')
  next
    case False
    with a have "map_of scopes sel' = Some m0" by (simp add: update_conv')
    with assms(1) obtain cm0 where "map_of classes sel' = Some cm0" "table_ok (kind @ sel') m0 cm0 c"
      unfolding scopes_ok_def by blast
    with False show ?thesis by (simp add: update_conv')
  qed
qed

lemma reg_ok_mono: "reg_ok n t r \<Longrightarrow> n \<le> n' \<Longrightarrow> reg_ok n' t r"
  by (auto simp: reg_ok_def split: option.splits instance.splits)

lemma registry_ok_mono: "registry_ok c n \<Longrightarrow> n \<le> n' \<Longrightarrow> registry_ok c n'"
  unfolding registry_ok_def using reg_ok_mono by blast

lemma inv_setupRootContainer:
  assumes "inv s"
  shows "inv (setupRootContainer Entity s)"
proof -
  obtain m' cm' c' where
    step: "register_in_scope ''root'' Entity (rootScope s, rootClasses s, container s) = (m', cm', c')"
    by (cases "register_in_scope ''root'' Entity (rootScope s, rootClasses s, container s)") auto
  from assms have t: "table_ok ''root'' (rootScope s) (rootClasses s) (container s)"
    and r: "registry_ok (container s) (allocated s)"
    by (simp_all add: inv_def)
  have "table_ok ''root'' m' cm' c'" using register_in_scope_table_ok [OF t step] .
  moreover have k: "keeps (container s) c'" using register_in_scope_keeps [OF step] .
  moreover have "registry_ok c' (allocated s)" using register_in_scope_registry_ok [OF r step] .
  ultimately show ?thesis
    using assms step scopes_ok_keeps [OF _ k]
    by (simp add: inv_def setupRootContainer_def)
qed

lemma inv_ensure_component: "inv s \<Longrightarrow> inv (ensure_component sel s)"
  by (simp add: inv_def ensure_component_def scopes_ok_update table_ok_empty)

lemma inv_ensure_router: "inv s \<Longrightarrow> inv (ensure_router sel s)"
  by (simp add: inv_def ensure_router_def scopes_ok_update table_ok_empty)

lemma ensure_component_has: "map_of (componentScopes (ensure_component sel s)) sel \<noteq> None"
  by (simp add: ensure_component_def update_conv')

lemma ensure_router_has: "map_of (routerScopes (ensure_router sel s)) sel \<noteq> None"
  by (simp add: ensure_router_def update_conv')

lemma ensure_component_container [simp]: "container (ensure_component sel s) = container s"
  by (simp add: ensure_component_def)

lemma ensure_router_container [simp]: "container (ensure_router sel s) = container s"
  by (simp add: ensure_router_def)

lemma ensure_component_allocated [simp]: "allocated (ensure_component sel s) = allocated s"
  by (simp add: ensure_component_def)

lemma ensure_router_allocated [simp]: "allocated (ensure_router sel s) = allocated s"
  by (simp add: ensure_router_def)

lemma setupComponentContainer_total:
  assumes "inv s"
  shows "\<exists>s'. setupComponentContainer sel Ps s = Inr s'"
proof -
  let ?s1 = "ensure_component sel s"
  have i1: "inv ?s1" using assms by (rule inv_ensure_component)
  obtain m where m: "map_of (componentScopes ?s1) sel = Some m"
    using ensure_component_has [of sel s] by auto
  from i1 m obtain cm where cm: "map_of (componentClasses ?s1) sel = Some cm"
    unfolding inv_def scopes_ok_def by blast
  show ?thesis
    by (simp add: setupComponentContainer_def m cm split: prod.splits)
qed

lemma setupRouterContainer_total:
  assumes "inv s"
  shows "\<exists>s'. setupRouterContainer Cs Ps sel s = Inr s'"
proof -
  let ?s1 = "ensure_router sel s"
  have i1: "inv ?s1" using assms by (rule inv_ensure_router)
  obtain m where m: "map_of (routerScopes ?s1) sel = Some m"
    using ensure_router_has [of sel s] by auto
  from i1 m obtain cm where cm: "map_of (routerClasses ?s1) sel = Some cm"
    unfolding inv_def scopes_ok_def by blast
  show ?thesis
    by (simp add: setupRouterContainer_def m cm split: prod.splits)
qed

lemma inv_setupComponentContainer:
  assumes "inv s" and "setupComponentContainer sel Ps s = Inr s'"
  shows "inv s'"
proof -
  let ?s1 = "ensure_component sel s"
  have i1: "inv ?s1" using assms(1) by (rule inv_ensure_component)
  obtain m where m: "map_of (componentScopes ?s1) sel = Some m"
    using ensure_component_has [of sel s] by auto
  from i1 m obtain cm where cm: "map_of (componentClasses ?s1) sel = Some cm"
    and t: "table_ok (''component:'' @ sel) m cm (container s)"
    unfolding inv_def scopes_ok_def by fastforce
  obtain m' cm' c' where
    f: "fold (register_in_scope (''component:'' @ sel)) Ps (m, cm, container s) = (m', cm', c')"
    by (cases "fold (register_in_scope (''component:'' @ sel)) Ps (m, cm, container s)") auto
  from fold_register_in_scope [OF t f, of "allocated s"] i1
  have t': "table_ok (''component:'' @ sel) m' cm' c'" and k: "keeps (container s) c'"
    and r: "registry_ok c' (allocated s)"
    by (simp_all add: inv_def)
  have s': "s' = ?s1\<lparr>componentScopes := AList.update sel m' (componentScopes ?s1),
                       componentClasses := AList.update sel cm' (componentClasses ?s1),
                       container := c'\<rparr>"
    using assms(2) f by (simp add: setupComponentContainer_def m cm)
  from i1 have
    a: "table_ok ''root'' (rootScope ?s1) (rootClasses ?s1) c'"
    and b: "scopes_ok ''router:'' (routerScopes ?s1) (routerClasses ?s1) c'"
    and c: "scopes_ok ''component:'' (componentScopes ?s1) (componentClasses ?s1) c'"
    using table_ok_keeps [OF _ k] scopes_ok_keeps [OF _ k] by (simp_all add: inv_def)
  have c': "scopes_ok ''component:'' (AList.update sel m' (componentScopes ?s1))
              (AList.update sel cm' (componentClasses ?s1)) c'"
    using c t' by (rule scopes_ok_update)
  have "table_ok ''root'' (rootScope s') (rootClasses s') (container s')"
    using a unfolding s' by simp
  moreover have "scopes_ok ''router:'' (routerScopes s') (routerClasses s') (container s')"
    using b unfolding s' by simp
  moreover have "scopes_ok ''component:'' (componentScopes s') (componentClasses s') (container s')"
    using c' unfolding s' by simp
  moreover have "registry_ok (container s') (allocated s')"
    using r unfolding s' by simp
  ultimately show ?thesis unfolding inv_def by blast
qed

lemma inv_setupRouterContainer:
  assumes "inv s" and "setupRouterContainer Cs Ps sel s = Inr s'"
  shows "inv s'"
proof -
  let ?s1 = "ensure_router sel s"
  have i1: "inv ?s1" using assms(1) by (rule inv_ensure_router)
  obtain m where m: "map_of (routerScopes ?s1) sel = Some m"
    using ensure_router_has [of sel s] by auto
  from i1 m obtain cm where cm: "map_of (routerClasses ?s1) sel = Some cm"
    and t: "table_ok (''router:'' @ sel) m cm (container s)"
    unfolding inv_def scopes_ok_def by fastforce
  obtain m' cm' c' where
    f: "fold (register_in_scope (''router:'' @ sel)) Ps (m, cm, container s) = (m', cm', c')"
    by (cases "fold (register_in_scope (''router:'' @ sel)) Ps (m, cm, container s)") auto
  from fold_register_in_scope [OF t f, of "allocated s"] i1
  have t': "table_ok (''router:'' @ sel) m' cm' c'" and k: "keeps (container s) c'"
    and r: "registry_ok c' (allocated s)"
    by (simp_all add: inv_def)
  have s': "s' = ?s1\<lparr>componentToRouter :=
                         fold (\<lambda>m. AList.update (member_name m) sel) Cs (componentToRouter s),
                       routerScopes := AList.update sel m' (routerScopes ?s1),
                       routerClasses := AList.update sel cm' (routerClasses ?s1),
                       container := c'\<rparr>"
    using assms(2) f by (simp add: setupRouterContainer_def m cm)
  from i1 have
    a: "table_ok ''root'' (rootScope ?s1) (rootClasses ?s1) c'"
    and b: "scopes_ok ''router:'' (routerScopes ?s1) (routerClasses ?s1) c'"
    and c: "scopes_ok ''component:'' (componentScopes ?s1) (componentClasses ?s1) c'"
    using table_ok_keeps [OF _ k] scopes_ok_keeps [OF _ k] by (simp_all add: inv_def)
  have b': "scopes_ok ''router:'' (AList.update sel m' (routerScopes ?s1))
              (AList.update sel cm' (routerClasses ?s1)) c'"
    using b t' by (rule scopes_ok_update)
  have "table_ok ''root'' (rootScope s') (rootClasses s') (container s')"
    using a unfolding s' by simp
  moreover have "scopes_ok ''router:'' (routerScopes s') (routerClasses s') (container s')"
    using b' unfolding s' by simp
  moreover have "scopes_ok ''component:'' (componentScopes s') (componentClasses s') (container s')"
    using c unfolding s' by simp
  moreover have "registry_ok (container s') (allocated s')"
    using r unfolding s' by simp
  ultimately show ?thesis unfolding inv_def by blast
qed

subsection \<open>Resolution keeps the invariant\<close>

lemma same_tables_refl: "same_tables s s"
  by (simp add: same_tables_def)

lemma inv_frame:
  assumes "inv s" and "same_tables s s'" and "keeps (container s) (container s')"
    and "registry_ok (container s') (allocated s')"
  shows "inv s'"
  using assms table_ok_keeps [OF _ assms(3)] scopes_ok_keeps [OF _ assms(3)]
  unfolding inv_def same_tables_def by metis

lemma registry_ok_cache:
  assumes ok: "registry_ok c n" and ne: "c t = r # rs"
    and p: "reg_provider (last (r # rs)) = UseClass k"
    and l: "reg_lifecycle (last (r # rs)) = Singleton"
  shows "registry_ok (c(t := butlast (r # rs) @ [Registration (UseClass k) Singleton (Some (Obj n k))])) (Suc n)"
  unfolding registry_ok_def
proof (intro allI ballI)
  fix t' x
  assume x: "x \<in> set ((c(t := butlast (r # rs) @ [Registration (UseClass k) Singleton (Some (Obj n k))])) t')"
  show "reg_ok (Suc n) t' x"
  proof (cases "t' = t")
    case False
    with x ok have "reg_ok n t' x" by (simp add: registry_ok_def)
    then show ?thesis by (rule reg_ok_mono) simp
  next
    case True
    with x have "x \<in> set (butlast (r # rs)) \<or> x = Registration (UseClass k) Singleton (Some (Obj n k))"
      by auto
    then show ?thesis
    proof
      assume "x \<in> set (butlast (r # rs))"
      then have "x \<in> set (c t)" using ne in_set_butlastD by metis
      with ok True have "reg_ok n t' x" by (simp add: registry_ok_def)
      then show ?thesis by (rule reg_ok_mono) simp
    next
      assume e: "x = Registration (UseClass k) Singleton (Some (Obj n k))"
      have "last (r # rs) \<in> set (c t)" using ne by (metis last_in_set list.discI)
      with ok have "reg_ok n t (last (r # rs))" by (simp add: registry_ok_def)
      with p l True e show ?thesis
        by (auto simp: reg_ok_def is_value_provider_def split: token.splits)
    qed
  qed
qed

lemma container_resolve_frame:
  assumes "container_resolve t s = (res, s')"
  shows "same_tables s s' \<and> keeps (container s) (container s') \<and> allocated s \<le> allocated s'
         \<and> (registry_ok (container s) (allocated s) \<longrightarrow> registry_ok (container s') (allocated s'))"
proof (cases "container s t")
  case Nil
  with assms show ?thesis
    by (auto simp: container_resolve_def same_tables_refl keeps_refl)
next
  case (Cons r rs)
  show ?thesis
  proof (cases "reg_provider (last (r # rs))")
    case (UseValue v)
    with Cons assms show ?thesis
      by (auto simp: container_resolve_def same_tables_refl keeps_refl)
  next
    case (UseClass k)
    show ?thesis
    proof (cases "reg_lifecycle (last (r # rs)) = Singleton")
      case False
      with Cons UseClass assms have s': "s' = s\<lparr>allocated := Suc (allocated s)\<rparr>"
        by (auto simp: container_resolve_def)
      show ?thesis unfolding s'
        using registry_ok_mono [of "container s" "allocated s" "Suc (allocated s)"]
        by (simp add: same_tables_def keeps_refl)
    next
      case True
      show ?thesis
      proof (cases "reg_instance (last (r # rs))")
        case (Some i)
        with Cons UseClass True assms show ?thesis
          by (auto simp: container_resolve_def same_tables_refl keeps_refl)
      next
        case None
        with Cons UseClass True assms have s':
          "s' = s\<lparr>container := (container s)
                     (t := butlast (r # rs) @
                        [Registration (UseClass k) Singleton (Some (Obj (allocated s) k))]),
                   allocated := Suc (allocated s)\<rparr>"
          by (auto simp: container_resolve_def)
        show ?thesis unfolding s'
          using registry_ok_cache [where c = "container s" and n = "allocated s", OF _ Cons UseClass True]
          by (simp add: same_tables_def keeps_def)
      qed
    qed
  qed
qed

lemma inv_container_resolve:
  assumes "inv s" and "container_resolve t s = (res, s')"
  shows "inv s'"
  using container_resolve_frame [OF assms(2)] assms(1) inv_frame [OF assms(1)]
  by (simp add: inv_def)

lemma resolve_token_frame:
  assumes "resolve_token t s = (res, s')"
  shows "\<exists>res'. container_resolve t s = (res', s')"
  using assms by (auto simp: resolve_token_def split: prod.splits sum.splits)

lemma resolve_cases:
  assumes "resolve n a b k s = (res, s')"
  shows "s' = s \<or> (\<exists>t res'. container_resolve t s = (res', s'))"
proof -
  have "s' = s \<or> (\<exists>t. resolve_token t s = (res, s'))"
    using assms unfolding resolve_def by (auto split: if_splits)
  then show ?thesis using resolve_token_frame by blast
qed

lemma inv_resolve:
  assumes "inv s" and "resolve n a b k s = (res, s')"
  shows "inv s'"
  using resolve_cases [OF assms(2)] assms(1) inv_container_resolve by blast

subsection \<open>The resets keep the invariant\<close>

lemma grows_refl: "grows c c"
  by (simp add: grows_def)

lemma grows_trans:
  assumes "grows a b" and "grows b c"
  shows "grows a c"
  unfolding grows_def
proof
  fix t
  from assms(1) obtain xs where xs: "b t = a t @ xs"
    "\<forall>x\<in>set xs. (\<exists>P. x = Registration (UseClass P) Singleton None) \<and> (\<exists>k. t = Sym k)"
    unfolding grows_def by blast
  from assms(2) obtain ys where ys: "c t = b t @ ys"
    "\<forall>x\<in>set ys. (\<exists>P. x = Registration (UseClass P) Singleton None) \<and> (\<exists>k. t = Sym k)"
    unfolding grows_def by blast
  have "c t = a t @ (xs @ ys)" using xs(1) ys(1) by simp
  moreover have "\<forall>x\<in>set (xs @ ys). (\<exists>P. x = Registration (UseClass P) Singleton None) \<and> (\<exists>k. t = Sym k)"
    using xs(2) ys(2) by auto
  ultimately show "\<exists>zs. c t = a t @ zs \<and>
      (\<forall>x\<in>set zs. (\<exists>P. x = Registration (UseClass P) Singleton None) \<and> (\<exists>k. t = Sym k))"
    by blast
qed

lemma grows_register: "grows c (register (Sym k) (UseClass P) Singleton c)"
  unfolding grows_def register_def
proof
  fix t
  show "\<exists>xs. (c(Sym k := c (Sym k) @ [Registration (UseClass P) Singleton None])) t = c t @ xs \<and>
      (\<forall>x\<in>set xs. (\<exists>P. x = Registration (UseClass P) Singleton None) \<and> (\<exists>k. t = Sym k))"
  proof (cases "t = Sym k")
    case True
    then show ?thesis by (intro exI [of _ "[Registration (UseClass P) Singleton None]"]) simp
  next
    case False
    then show ?thesis by (intro exI [of _ "[]"]) simp
  qed
qed

lemma grows_nonempty:
  assumes "grows c c'" and "c t \<noteq> []"
  shows "c' t \<noteq> []"
proof -
  from assms(1) obtain xs where "c' t = c t @ xs" unfolding grows_def by blast
  with assms(2) show ?thesis by simp
qed

lemma grows_keeps: "grows c c' \<Longrightarrow> keeps c c'"
  unfolding keeps_def using grows_nonempty by blast

lemma grows_from_empty_ok:
  assumes "grows createChildContainer c"
  shows "registry_ok c n"
  unfolding registry_ok_def
proof (intro allI ballI)
  fix t r
  assume r: "r \<in> set (c t)"
  from assms obtain xs where "c t = xs"
    and xs: "\<forall>x\<in>set xs. (\<exists>P. x = Registration (UseClass P) Singleton None) \<and> (\<exists>k. t = Sym k)"
    unfolding grows_def createChildContainer_def by auto
  with r obtain P k where "r = Registration (UseClass P) Singleton None" "t = Sym k" by blast
  then show "reg_ok n t r" by (simp add: reg_ok_def is_value_provider_def)
qed

lemma reregister_table_grows:
  assumes "sym_table m"
  shows "grows c (reregister_table m cm c)"
  using assms
proof (induction m arbitrary: c)
  case Nil
  then show ?case by (simp add: reregister_table_def grows_refl)
next
  case (Cons e m)
  obtain n t where e: "e = (n, t)" by (cases e)
  from Cons.prems e obtain k where k: "t = Sym k" and rest: "sym_table m"
    by (auto simp: sym_table_def)
  let ?c1 = "case map_of cm n of None \<Rightarrow> c | Some P \<Rightarrow> register t (UseClass P) Singleton c"
  have a: "grows c ?c1" using k by (simp add: grows_refl grows_register split: option.splits)
  have b: "grows ?c1 (reregister_table m cm ?c1)" using Cons.IH [OF rest] .
  have "reregister_table (e # m) cm c = reregister_table m cm ?c1"
    by (simp add: reregister_table_def e)
  then show ?case using grows_trans [OF a b] by simp
qed

lemma reregister_table_mono: "c t \<noteq> [] \<Longrightarrow> reregister_table m cm c t \<noteq> []"
proof (induction m arbitrary: c)
  case Nil
  then show ?case by (simp add: reregister_table_def)
next
  case (Cons e m)
  obtain n t' where e: "e = (n, t')" by (cases e)
  let ?c1 = "case map_of cm n of None \<Rightarrow> c | Some P \<Rightarrow> register t' (UseClass P) Singleton c"
  have "?c1 t \<noteq> []" using Cons.prems by (simp add: register_def split: option.splits)
  then have "reregister_table m cm ?c1 t \<noteq> []" by (rule Cons.IH)
  moreover have "reregister_table (e # m) cm c = reregister_table m cm ?c1"
    by (simp add: reregister_table_def e)
  ultimately show ?case by simp
qed

lemma reregister_table_registers:
  assumes "(n, t) \<in> set m" and "map_of cm n \<noteq> None"
  shows "reregister_table m cm c t \<noteq> []"
  using assms
proof (induction m arbitrary: c)
  case Nil
  then show ?case by simp
next
  case (Cons e m)
  obtain n' t' where e: "e = (n', t')" by (cases e)
  let ?c1 = "case map_of cm n' of None \<Rightarrow> c | Some P \<Rightarrow> register t' (UseClass P) Singleton c"
  have unfold: "reregister_table (e # m) cm c = reregister_table m cm ?c1"
    by (simp add: reregister_table_def e)
  show ?case
  proof (cases "(n, t) = e")
    case True
    with e Cons.prems(2) have "?c1 t \<noteq> []" by (auto simp: register_def)
    then show ?thesis unfolding unfold by (rule reregister_table_mono)
  next
    case False
    with Cons.prems(1) have "(n, t) \<in> set m" by simp
    then show ?thesis unfolding unfold using Cons.prems(2) by (rule Cons.IH)
  qed
qed

lemma table_ok_sym:
  assumes "table_ok key m cm c"
  shows "sym_table m"
  unfolding sym_table_def
proof
  fix e
  assume e: "e \<in> set m"
  obtain n t where nt: "e = (n, t)" by (cases e)
  from assms have "distinct (map fst m)" by (simp add: table_ok_def)
  with e nt have "map_of m n = Some t" by simp
  with assms have "t = getToken n key" by (simp add: table_ok_def)
  with nt show "\<exists>k. snd e = Sym k" by (simp add: getToken_def)
qed

lemma table_ok_reregister:
  assumes "table_ok key m cm c0"
  shows "table_ok key m cm (reregister_table m cm c)"
  unfolding table_ok_def
proof (intro conjI allI impI)
  show "distinct (map fst m)" using assms by (simp add: table_ok_def)
next
  fix n t
  assume a: "map_of m n = Some t"
  with assms show "t = getToken n key" by (simp add: table_ok_def)
next
  fix n t
  assume a: "map_of m n = Some t"
  with assms have "map_of cm n \<noteq> None" by (simp add: table_ok_def)
  moreover from a have "(n, t) \<in> set m" by (rule map_of_SomeD)
  ultimately show "reregister_table m cm c t \<noteq> []" by (rule reregister_table_registers [rotated])
next
  fix n t
  assume a: "map_of m n = Some t"
  with assms show "map_of cm n \<noteq> None" by (simp add: table_ok_def)
qed

lemma reregister_scopes_Cons:
  "reregister_scopes ((sel, m) # scopes) classes c =
     reregister_scopes scopes classes
       (case map_of classes sel of None \<Rightarrow> c | Some cm \<Rightarrow> reregister_table m cm c)"
  by (simp add: reregister_scopes_def)

lemma reregister_scopes_grows:
  assumes "sym_scopes scopes"
  shows "grows c (reregister_scopes scopes classes c)"
  using assms
proof (induction scopes arbitrary: c)
  case Nil
  then show ?case by (simp add: reregister_scopes_def grows_refl)
next
  case (Cons e scopes)
  obtain sel m where e: "e = (sel, m)" by (cases e)
  from Cons.prems e have m: "sym_table m" and rest: "sym_scopes scopes"
    by (simp_all add: sym_scopes_def)
  let ?c1 = "case map_of classes sel of None \<Rightarrow> c | Some cm \<Rightarrow> reregister_table m cm c"
  have a: "grows c ?c1"
    using reregister_table_grows [OF m] by (simp add: grows_refl split: option.splits)
  have b: "grows ?c1 (reregister_scopes scopes classes ?c1)" using Cons.IH [OF rest] .
  show ?case unfolding e reregister_scopes_Cons using grows_trans [OF a b] .
qed

lemma reregister_scopes_mono: "c t \<noteq> [] \<Longrightarrow> reregister_scopes scopes classes c t \<noteq> []"
proof (induction scopes arbitrary: c)
  case Nil
  then show ?case by (simp add: reregister_scopes_def)
next
  case (Cons e scopes)
  obtain sel m where e: "e = (sel, m)" by (cases e)
  let ?c1 = "case map_of classes sel of None \<Rightarrow> c | Some cm \<Rightarrow> reregister_table m cm c"
  have "?c1 t \<noteq> []"
    using Cons.prems reregister_table_mono by (simp split: option.splits)
  then show ?case unfolding e reregister_scopes_Cons by (rule Cons.IH)
qed

lemma reregister_scopes_registers:
  assumes "(sel, m) \<in> set scopes" and "map_of classes sel = Some cm"
    and "(n, t) \<in> set m" and "map_of cm n \<noteq> None"
  shows "reregister_scopes scopes classes c t \<noteq> []"
  using assms(1)
proof (induction scopes arbitrary: c)
  case Nil
  then show ?case by simp
next
  case (Cons e scopes)
  obtain sel' m' where e: "e = (sel', m')" by (cases e)
  let ?c1 = "case map_of classes sel' of None \<Rightarrow> c | Some cm' \<Rightarrow> reregister_table m' cm' c"
  show ?case
  proof (cases "(sel, m) = e")
    case True
    with e assms(2) have "?c1 = reregister_table m cm c" by simp
    then have "?c1 t \<noteq> []"
      using reregister_table_registers [OF assms(3) assms(4)] by simp
    then show ?thesis unfolding e reregister_scopes_Cons by (rule reregister_scopes_mono)
  next
    case False
    with Cons.prems have "(sel, m) \<in> set scopes" by simp
    then show ?thesis unfolding e reregister_scopes_Cons by (rule Cons.IH)
  qed
qed

lemma scopes_ok_sym:
  assumes "scopes_ok kind scopes classes c"
  shows "sym_scopes scopes"
  unfolding sym_scopes_def
proof
  fix e
  assume e: "e \<in> set scopes"
  obtain sel m where sm: "e = (sel, m)" by (cases e)
  from assms have "distinct (map fst scopes)" by (simp add: scopes_ok_def)
  with e sm have "map_of scopes sel = Some m" by simp
  with assms obtain cm where "table_ok (kind @ sel) m cm c" unfolding scopes_ok_def by blast
  then have "sym_table m" by (rule table_ok_sym)
  with sm show "sym_table (snd e)" by simp
qed

lemma scopes_ok_reregister:
  assumes "scopes_ok kind scopes classes c0"
  shows "scopes_ok kind scopes classes (reregister_scopes scopes classes c)"
  unfolding scopes_ok_def
proof (intro conjI allI impI)
  show "distinct (map fst scopes)" using assms by (simp add: scopes_ok_def)
next
  fix sel m
  assume a: "map_of scopes sel = Some m"
  with assms obtain cm where cm: "map_of classes sel = Some cm"
    and t: "table_ok (kind @ sel) m cm c0"
    unfolding scopes_ok_def by blast
  from a have mem: "(sel, m) \<in> set scopes" by (rule map_of_SomeD)
  have "table_ok (kind @ sel) m cm (reregister_scopes scopes classes c)"
    unfolding table_ok_def
  proof (intro conjI allI impI)
    show "distinct (map fst m)" using t by (simp add: table_ok_def)
  next
    fix n tok
    assume "map_of m n = Some tok"
    with t show "tok = getToken n (kind @ sel)" by (simp add: table_ok_def)
  next
    fix n tok
    assume b: "map_of m n = Some tok"
    with t have "map_of cm n \<noteq> None" by (simp add: table_ok_def)
    moreover from b have "(n, tok) \<in> set m" by (rule map_of_SomeD)
    ultimately show "reregister_scopes scopes classes c tok \<noteq> []"
      using reregister_scopes_registers [OF mem cm] by blast
  next
    fix n tok
    assume "map_of m n = Some tok"
    with t show "map_of cm n \<noteq> None" by (simp add: table_ok_def)
  qed
  with cm show "\<exists>cm. map_of classes sel = Some cm \<and>
      table_ok (kind @ sel) m cm (reregister_scopes scopes classes c)" by blast
qed

lemma inv_reset:
  assumes "inv s"
  shows "inv (reregisterAll (s\<lparr>container := createChildContainer\<rparr>))"
proof -
  let ?c1 = "reregister_table (rootScope s) (rootClasses s) createChildContainer"
  let ?c2 = "reregister_scopes (routerScopes s) (routerClasses s) ?c1"
  let ?c3 = "reregister_scopes (componentScopes s) (componentClasses s) ?c2"
  from assms have r: "table_ok ''root'' (rootScope s) (rootClasses s) (container s)"
    and ro: "scopes_ok ''router:'' (routerScopes s) (routerClasses s) (container s)"
    and co: "scopes_ok ''component:'' (componentScopes s) (componentClasses s) (container s)"
    by (simp_all add: inv_def)
  have g1: "grows createChildContainer ?c1"
    using table_ok_sym [OF r] by (rule reregister_table_grows)
  have g2: "grows ?c1 ?c2" using scopes_ok_sym [OF ro] by (rule reregister_scopes_grows)
  have g3: "grows ?c2 ?c3" using scopes_ok_sym [OF co] by (rule reregister_scopes_grows)
  have "table_ok ''root'' (rootScope s) (rootClasses s) ?c1" using r by (rule table_ok_reregister)
  then have a: "table_ok ''root'' (rootScope s) (rootClasses s) ?c3"
    using grows_keeps [OF grows_trans [OF g2 g3]] by (rule table_ok_keeps)
  have "scopes_ok ''router:'' (routerScopes s) (routerClasses s) ?c2"
    using ro by (rule scopes_ok_reregister)
  then have b: "scopes_ok ''router:'' (routerScopes s) (routerClasses s) ?c3"
    using grows_keeps [OF g3] by (rule scopes_ok_keeps)
  have c: "scopes_ok ''component:'' (componentScopes s) (componentClasses s) ?c3"
    using co by (rule scopes_ok_reregister)
  have d: "registry_ok ?c3 (allocated s)"
    using grows_trans [OF grows_trans [OF g1 g2] g3] by (rule grows_from_empty_ok)
  show ?thesis
    unfolding inv_def reregisterAll_def using a b c d by simp
qed

lemma registry_ok_sym:
  assumes "registry_ok c n" and "r \<in> set (c (Sym k))"
  shows "\<not> is_value_provider (reg_provider r) \<and> reg_lifecycle r = Singleton"
proof -
  from assms have "reg_ok n (Sym k) r" unfolding registry_ok_def by blast
  then show ?thesis by (simp add: reg_ok_def)
qed

lemma clearInstances_sym:
  assumes "registry_ok c n"
  shows "length (clearInstances c (Sym k)) = length (c (Sym k))"
proof -
  have "\<forall>r\<in>set (c (Sym k)). \<not> is_value_provider (reg_provider r)"
    using registry_ok_sym [OF assms] by blast
  then have "filter (\<lambda>r. \<not> is_value_provider (reg_provider r)) (c (Sym k)) = c (Sym k)"
    by simp
  then show ?thesis by (simp add: clearInstances_def)
qed

lemma clearInstances_keeps:
  assumes "registry_ok c n"
  shows "keeps c (clearInstances c)"
  unfolding keeps_def using clearInstances_sym [OF assms] by (metis length_0_conv)

lemma clearInstances_ok:
  assumes "registry_ok c n"
  shows "registry_ok (clearInstances c) n"
  unfolding registry_ok_def
proof (intro allI ballI)
  fix t r
  assume "r \<in> set (clearInstances c t)"
  then obtain r0 where r0: "r0 \<in> set (c t)" "\<not> is_value_provider (reg_provider r0)"
    and r: "r = Registration (reg_provider r0) (reg_lifecycle r0) None"
    by (auto simp: clearInstances_def)
  from assms r0(1) have "reg_ok n t r0" by (simp add: registry_ok_def)
  with r show "reg_ok n t r" by (simp add: reg_ok_def split: token.splits)
qed

lemma inv_resetAll:
  assumes "inv s"
  shows "inv (resetAll s)"
proof -
  from assms have r: "registry_ok (container s) (allocated s)" by (simp add: inv_def)
  show ?thesis
    using assms
  proof (rule inv_frame)
    show "same_tables s (resetAll s)" by (simp add: same_tables_def resetAll_def)
    show "keeps (container s) (container (resetAll s))"
      using clearInstances_keeps [OF r] by (simp add: resetAll_def)
    show "registry_ok (container (resetAll s)) (allocated (resetAll s))"
      using clearInstances_ok [OF r] by (simp add: resetAll_def)
  qed
qed

lemma inv_getInstance: "inv getInstance"
proof -
  have "registry_ok (container getInstance) 0"
    by (auto simp: registry_ok_def getInstance_def register_def createChildContainer_def
        reg_ok_def is_value_provider_def split: if_splits)
  then show ?thesis
    by (simp add: inv_def getInstance_def table_ok_def scopes_ok_def)
qed

lemma inv_exec:
  assumes "inv s"
  shows "inv (exec call s)"
proof (cases call)
  case (SetContext a b)
  show ?thesis using assms unfolding SetContext by (simp add: inv_def setContext_def)
next
  case ClearContext
  show ?thesis using assms unfolding ClearContext by (simp add: inv_def clearContext_def)
next
  case (SetupRoot E)
  show ?thesis using assms unfolding SetupRoot by (simp add: inv_setupRootContainer)
next
  case (SetupComponent sel Ps)
  show ?thesis
    using assms inv_setupComponentContainer [OF assms] unfolding SetupComponent
    by (cases "setupComponentContainer sel Ps s") (simp_all add: state_after_def)
next
  case (SetupRouter Cs Ps sel)
  show ?thesis
    using assms inv_setupRouterContainer [OF assms] unfolding SetupRouter
    by (cases "setupRouterContainer Cs Ps sel s") (simp_all add: state_after_def)
next
  case (Resolve n a b k)
  show ?thesis
    using inv_resolve [OF assms, of n a b k] unfolding Resolve
    by (cases "resolve n a b k s") simp
next
  case (Get n)
  show ?thesis
    using inv_resolve [OF assms, of n "currentSelector s" "currentRouterSelector s" None]
    unfolding Get
    by (cases "resolve n (currentSelector s) (currentRouterSelector s) None s") (simp add: get_def)
next
  case (ResetScope k sel)
  show ?thesis using inv_reset [OF assms] unfolding ResetScope by (simp add: resetScope_def)
next
  case (ResetClass n)
  show ?thesis using inv_reset [OF assms] unfolding ResetClass by (simp add: resetClass_def)
next
  case ResetAll
  show ?thesis using inv_resetAll [OF assms] unfolding ResetAll by simp
qed

lemma inv_run: "inv s \<Longrightarrow> inv (run calls s)"
  unfolding run_def
proof (induction calls arbitrary: s)
  case Nil
  then show ?case by simp
next
  case (Cons c calls)
  from Cons.prems have "inv (exec c s)" by (rule inv_exec)
  then show ?case using Cons.IH by simp
qed

lemma inv_reachable: "inv (run calls getInstance)"
  using inv_getInstance by (rule inv_run)

subsection \<open>Repeating a setup call\<close>

lemma once_refl: "once c c"
  by (simp add: once_def)

lemma once_trans:
  assumes "once a b" and "once b c"
  shows "once a c"
  unfolding once_def
proof
  fix t
  from assms(1) have ab: "b t = a t \<or> (a t = [] \<and> length (b t) = 1)" by (simp add: once_def)
  from assms(2) have bc: "c t = b t \<or> (b t = [] \<and> length (c t) = 1)" by (simp add: once_def)
  from ab bc show "c t = a t \<or> (a t = [] \<and> length (c t) = 1)" by auto
qed

lemma register_in_scope_once:
  assumes "register_in_scope key P (m, cm, c) = (m', cm', c')"
  shows "once c c'"
  using assms
  by (auto simp: register_in_scope_def once_def isRegistered_def register_def split: if_splits)

lemma register_in_scope_present:
  assumes "map_of m (ctor_name P) \<noteq> None"
  shows "register_in_scope key P (m, cm, c) = (m, cm, c)"
  using assms by (auto simp: register_in_scope_def)

lemma register_in_scope_dom:
  assumes "register_in_scope key P (m, cm, c) = (m', cm', c')"
  shows "map_of m' (ctor_name P) \<noteq> None \<and> (\<forall>n. map_of m n \<noteq> None \<longrightarrow> map_of m' n \<noteq> None)"
  using assms by (auto simp: register_in_scope_def update_conv' split: if_splits)

lemma fold_register_in_scope_present:
  assumes "\<forall>P\<in>set Ps. map_of m (ctor_name P) \<noteq> None"
  shows "fold (register_in_scope key) Ps (m, cm, c) = (m, cm, c)"
  using assms by (induction Ps) (simp_all add: register_in_scope_present)

lemma fold_register_in_scope_dom:
  assumes "fold (register_in_scope key) Ps (m, cm, c) = (m', cm', c')"
  shows "(\<forall>P\<in>set Ps. map_of m' (ctor_name P) \<noteq> None)
         \<and> (\<forall>n. map_of m n \<noteq> None \<longrightarrow> map_of m' n \<noteq> None) \<and> once c c'"
  using assms
proof (induction Ps arbitrary: m cm c)
  case Nil
  then show ?case by (simp add: once_refl)
next
  case (Cons P Ps)
  obtain m1 cm1 c1 where step: "register_in_scope key P (m, cm, c) = (m1, cm1, c1)"
    by (cases "register_in_scope key P (m, cm, c)") auto
  from Cons.prems step have rest: "fold (register_in_scope key) Ps (m1, cm1, c1) = (m', cm', c')"
    by simp
  note d = register_in_scope_dom [OF step]
  note o = register_in_scope_once [OF step]
  note ih = Cons.IH [OF rest]
  have "\<forall>Q\<in>set (P # Ps). map_of m' (ctor_name Q) \<noteq> None" using d ih by auto
  moreover have "\<forall>n. map_of m n \<noteq> None \<longrightarrow> map_of m' n \<noteq> None" using d ih by blast
  moreover have "once c c'" using o ih once_trans by blast
  ultimately show ?case by blast
qed

lemma setupRootContainer_idem:
  "setupRootContainer E (setupRootContainer E s) = setupRootContainer E s"
proof -
  obtain m' cm' c' where
    step: "register_in_scope ''root'' E (rootScope s, rootClasses s, container s) = (m', cm', c')"
    by (cases "register_in_scope ''root'' E (rootScope s, rootClasses s, container s)") auto
  have s1: "setupRootContainer E s = s\<lparr>rootScope := m', rootClasses := cm', container := c'\<rparr>"
    by (simp add: setupRootContainer_def step)
  have "map_of m' (ctor_name E) \<noteq> None" using register_in_scope_dom [OF step] by simp
  then have "register_in_scope ''root'' E (m', cm', c') = (m', cm', c')"
    by (rule register_in_scope_present)
  then show ?thesis unfolding s1 by (simp add: setupRootContainer_def)
qed

lemma setupComponentContainer_idem:
  assumes "setupComponentContainer sel Ps s = Inr s'"
  shows "setupComponentContainer sel Ps s' = Inr s'"
proof -
  let ?s1 = "ensure_component sel s"
  from assms obtain m cm where m: "map_of (componentScopes ?s1) sel = Some m"
    and cm: "map_of (componentClasses ?s1) sel = Some cm"
    by (auto simp: setupComponentContainer_def split: option.splits)
  obtain m' cm' c' where
    f: "fold (register_in_scope (''component:'' @ sel)) Ps (m, cm, container s) = (m', cm', c')"
    by (cases "fold (register_in_scope (''component:'' @ sel)) Ps (m, cm, container s)") auto
  have s': "s' = ?s1\<lparr>componentScopes := AList.update sel m' (componentScopes ?s1),
                       componentClasses := AList.update sel cm' (componentClasses ?s1),
                       container := c'\<rparr>"
    using assms f by (simp add: setupComponentContainer_def m cm)
  have a: "map_of (componentScopes s') sel = Some m'" unfolding s' by (simp add: update_conv')
  have b: "map_of (componentClasses s') sel = Some cm'" unfolding s' by (simp add: update_conv')
  have c: "container s' = c'" unfolding s' by simp
  have e: "ensure_component sel s' = s'" using a by (simp add: ensure_component_def)
  have "\<forall>P\<in>set Ps. map_of m' (ctor_name P) \<noteq> None"
    using fold_register_in_scope_dom [OF f] by blast
  then have g: "fold (register_in_scope (''component:'' @ sel)) Ps (m', cm', c') = (m', cm', c')"
    by (rule fold_register_in_scope_present)
  have u1: "AList.update sel m' (componentScopes s') = componentScopes s'"
    using a by (rule update_triv)
  have u2: "AList.update sel cm' (componentClasses s') = componentClasses s'"
    using b by (rule update_triv)
  show ?thesis
    using g unfolding setupComponentContainer_def e a b c
    by (simp add: u1 u2 c [symmetric])
qed

lemma membership_fold_has:
  "(\<forall>m\<in>set Cs. map_of (fold (\<lambda>m. AList.update (member_name m) sel) Cs tbl) (member_name m) = Some sel)
   \<and> (\<forall>n. map_of tbl n = Some sel \<longrightarrow>
          map_of (fold (\<lambda>m. AList.update (member_name m) sel) Cs tbl) n = Some sel)"
proof (induction Cs arbitrary: tbl)
  case Nil
  then show ?case by simp
next
  case (Cons a Cs)
  have "map_of (AList.update (member_name a) sel tbl) (member_name a) = Some sel"
    by (simp add: update_conv')
  moreover have "\<forall>n. map_of tbl n = Some sel \<longrightarrow> map_of (AList.update (member_name a) sel tbl) n = Some sel"
    by (simp add: update_conv')
  ultimately show ?case using Cons.IH [of "AList.update (member_name a) sel tbl"] by auto
qed

lemma membership_fold_present:
  assumes "\<forall>m\<in>set Cs. map_of tbl (member_name m) = Some sel"
  shows "fold (\<lambda>m. AList.update (member_name m) sel) Cs tbl = tbl"
  using assms by (induction Cs) (simp_all add: update_triv)

lemma setupRouterContainer_idem:
  assumes "setupRouterContainer Cs Ps sel s = Inr s'"
  shows "setupRouterContainer Cs Ps sel s' = Inr s'"
proof -
  let ?s1 = "ensure_router sel s"
  let ?tbl = "fold (\<lambda>m. AList.update (member_name m) sel) Cs (componentToRouter s)"
  from assms obtain m cm where m: "map_of (routerScopes ?s1) sel = Some m"
    and cm: "map_of (routerClasses ?s1) sel = Some cm"
    by (auto simp: setupRouterContainer_def split: option.splits)
  obtain m' cm' c' where
    f: "fold (register_in_scope (''router:'' @ sel)) Ps (m, cm, container s) = (m', cm', c')"
    by (cases "fold (register_in_scope (''router:'' @ sel)) Ps (m, cm, container s)") auto
  have s': "s' = ?s1\<lparr>componentToRouter := ?tbl,
                       routerScopes := AList.update sel m' (routerScopes ?s1),
                       routerClasses := AList.update sel cm' (routerClasses ?s1),
                       container := c'\<rparr>"
    using assms f by (simp add: setupRouterContainer_def m cm)
  have a: "map_of (routerScopes s') sel = Some m'" unfolding s' by (simp add: update_conv')
  have b: "map_of (routerClasses s') sel = Some cm'" unfolding s' by (simp add: update_conv')
  have c: "container s' = c'" unfolding s' by simp
  have t: "componentToRouter s' = ?tbl" unfolding s' by simp
  have e: "ensure_router sel s' = s'" using a by (simp add: ensure_router_def)
  have "\<forall>P\<in>set Ps. map_of m' (ctor_name P) \<noteq> None"
    using fold_register_in_scope_dom [OF f] by blast
  then have g: "fold (register_in_scope (''router:'' @ sel)) Ps (m', cm', c') = (m', cm', c')"
    by (rule fold_register_in_scope_present)
  have "\<forall>m\<in>set Cs. map_of ?tbl (member_name m) = Some sel"
    using membership_fold_has [of Cs sel "componentToRouter s"] by blast
  then have h: "fold (\<lambda>m. AList.update (member_name m) sel) Cs ?tbl = ?tbl"
    by (rule membership_fold_present)
  have u1: "AList.update sel m' (routerScopes s') = routerScopes s'"
    using a by (rule update_triv)
  have u2: "AList.update sel cm' (routerClasses s') = routerClasses s'"
    using b by (rule update_triv)
  show ?thesis
    using g h unfolding setupRouterContainer_def e a b c t
    by (simp add: u1 u2 c [symmetric] t [symmetric])
qed

lemma filter_unique:
  assumes "distinct (map fst m)" and "map_of m n = Some t"
  shows "filter (\<lambda>e. fst e = n) m = [(n, t)]"
  using assms
proof (induction m)
  case Nil
  then show ?case by simp
next
  case (Cons e m)
  obtain n' t' where e: "e = (n', t')" by (cases e)
  show ?case
  proof (cases "n' = n")
    case True
    with Cons.prems e have t: "t' = t" and notin: "n \<notin> fst ` set m" by auto
    from notin have "filter (\<lambda>e. fst e = n) m = []" by (auto simp: filter_empty_conv)
    with True t e show ?thesis by simp
  next
    case False
    with Cons.prems e have "distinct (map fst m)" "map_of m n = Some t" by auto
    then have "filter (\<lambda>e. fst e = n) m = [(n, t)]" by (rule Cons.IH)
    with False e show ?thesis by simp
  qed
qed

lemma setupRootContainer_effect: "setup_effect s (setupRootContainer E s)"
proof -
  obtain m' cm' c' where
    step: "register_in_scope ''root'' E (rootScope s, rootClasses s, container s) = (m', cm', c')"
    by (cases "register_in_scope ''root'' E (rootScope s, rootClasses s, container s)") auto
  show ?thesis
    using register_in_scope_once [OF step]
    by (simp add: setup_effect_def setupRootContainer_def step)
qed

lemma setupComponentContainer_effect:
  assumes "setupComponentContainer sel Ps s = Inr s'"
  shows "setup_effect s s' \<and> (\<forall>P\<in>set Ps. \<exists>m. map_of (componentScopes s') sel = Some m
            \<and> map_of m (ctor_name P) \<noteq> None)"
proof -
  let ?s1 = "ensure_component sel s"
  from assms obtain m cm where m: "map_of (componentScopes ?s1) sel = Some m"
    and cm: "map_of (componentClasses ?s1) sel = Some cm"
    by (auto simp: setupComponentContainer_def split: option.splits)
  obtain m' cm' c' where
    f: "fold (register_in_scope (''component:'' @ sel)) Ps (m, cm, container s) = (m', cm', c')"
    by (cases "fold (register_in_scope (''component:'' @ sel)) Ps (m, cm, container s)") auto
  have s': "s' = ?s1\<lparr>componentScopes := AList.update sel m' (componentScopes ?s1),
                       componentClasses := AList.update sel cm' (componentClasses ?s1),
                       container := c'\<rparr>"
    using assms f by (simp add: setupComponentContainer_def m cm)
  note d = fold_register_in_scope_dom [OF f]
  have "setup_effect s s'" using d unfolding s' by (simp add: setup_effect_def)
  moreover have "map_of (componentScopes s') sel = Some m'" unfolding s' by (simp add: update_conv')
  ultimately show ?thesis using d by blast
qed

lemma setupRouterContainer_effect:
  assumes "setupRouterContainer Cs Ps sel s = Inr s'"
  shows "setup_effect s s' \<and> (\<forall>P\<in>set Ps. \<exists>m. map_of (routerScopes s') sel = Some m
            \<and> map_of m (ctor_name P) \<noteq> None)"
proof -
  let ?s1 = "ensure_router sel s"
  from assms obtain m cm where m: "map_of (routerScopes ?s1) sel = Some m"
    and cm: "map_of (routerClasses ?s1) sel = Some cm"
    by (auto simp: setupRouterContainer_def split: option.splits)
  obtain m' cm' c' where
    f: "fold (register_in_scope (''router:'' @ sel)) Ps (m, cm, container s) = (m', cm', c')"
    by (cases "fold (register_in_scope (''router:'' @ sel)) Ps (m, cm, container s)") auto
  have s': "s' = ?s1\<lparr>componentToRouter :=
                         fold (\<lambda>m. AList.update (member_name m) sel) Cs (componentToRouter s),
                       routerScopes := AList.update sel m' (routerScopes ?s1),
                       routerClasses := AList.update sel cm' (routerClasses ?s1),
                       container := c'\<rparr>"
    using assms f by (simp add: setupRouterContainer_def m cm)
  note d = fold_register_in_scope_dom [OF f]
  have "setup_effect s s'" using d unfolding s' by (simp add: setup_effect_def)
  moreover have "map_of (routerScopes s') sel = Some m'" unfolding s' by (simp add: update_conv')
  ultimately show ?thesis using d by blast
qed

lemma root_entry_unique:
  assumes "inv s"
  shows "filter (\<lambda>e. fst e = ctor_name E) (rootScope (setupRootContainer E s))
           = [(ctor_name E, getToken (ctor_name E) ''root'')]"
proof -
  let ?s' = "setupRootContainer E s"
  obtain m' cm' c' where
    step: "register_in_scope ''root'' E (rootScope s, rootClasses s, container s) = (m', cm', c')"
    by (cases "register_in_scope ''root'' E (rootScope s, rootClasses s, container s)") auto
  have "map_of m' (ctor_name E) \<noteq> None" using register_in_scope_dom [OF step] by simp
  then obtain t where t: "map_of (rootScope ?s') (ctor_name E) = Some t"
    by (auto simp: setupRootContainer_def step)
  have "inv ?s'" using assms by (rule inv_setupRootContainer)
  then have ok: "table_ok ''root'' (rootScope ?s') (rootClasses ?s') (container ?s')"
    by (simp add: inv_def)
  then have e: "t = getToken (ctor_name E) ''root''" using t by (simp add: table_ok_def)
  have "distinct (map fst (rootScope ?s'))" using ok by (simp add: table_ok_def)
  from filter_unique [OF this t] show ?thesis unfolding e .
qed

lemma scope_entry_unique:
  assumes "scopes_ok kind scopes classes c" and "map_of scopes sel = Some m"
    and "map_of m n \<noteq> None"
  shows "entries_for scopes sel n = [(n, getToken n (kind @ sel))]"
proof -
  from assms(1,2) obtain cm where ok: "table_ok (kind @ sel) m cm c"
    unfolding scopes_ok_def by blast
  from assms(3) obtain t where t: "map_of m n = Some t" by auto
  with ok have e: "t = getToken n (kind @ sel)" by (simp add: table_ok_def)
  have "distinct (map fst m)" using ok by (simp add: table_ok_def)
  from filter_unique [OF this t] show ?thesis
    unfolding e entries_for_def using assms(2) by simp
qed

lemma component_entry_unique:
  assumes "inv s" and "P \<in> set Ps"
  shows "entries_for (componentScopes (exec (SetupComponent sel Ps) s)) sel (ctor_name P)
           = [(ctor_name P, getToken (ctor_name P) (''component:'' @ sel))]"
proof -
  from setupComponentContainer_total [OF assms(1)]
  obtain s' where s': "setupComponentContainer sel Ps s = Inr s'" by blast
  have i: "inv s'" using assms(1) s' by (rule inv_setupComponentContainer)
  from setupComponentContainer_effect [OF s'] assms(2)
  obtain m where m: "map_of (componentScopes s') sel = Some m" "map_of m (ctor_name P) \<noteq> None"
    by blast
  have "scopes_ok ''component:'' (componentScopes s') (componentClasses s') (container s')"
    using i by (simp add: inv_def)
  from scope_entry_unique [OF this m] show ?thesis by (simp add: s' state_after_def)
qed

lemma router_entry_unique:
  assumes "inv s" and "P \<in> set Ps"
  shows "entries_for (routerScopes (exec (SetupRouter Cs Ps sel) s)) sel (ctor_name P)
           = [(ctor_name P, getToken (ctor_name P) (''router:'' @ sel))]"
proof -
  from setupRouterContainer_total [OF assms(1)]
  obtain s' where s': "setupRouterContainer Cs Ps sel s = Inr s'" by blast
  have i: "inv s'" using assms(1) s' by (rule inv_setupRouterContainer)
  from setupRouterContainer_effect [OF s'] assms(2)
  obtain m where m: "map_of (routerScopes s') sel = Some m" "map_of m (ctor_name P) \<noteq> None"
    by blast
  have "scopes_ok ''router:'' (routerScopes s') (routerClasses s') (container s')"
    using i by (simp add: inv_def)
  from scope_entry_unique [OF this m] show ?thesis by (simp add: s' state_after_def)
qed

section \<open>Token derivation\<close>

text \<open>
  Claim C4. Token derivation is a function of the provider name and the scope key, and for
  a fixed provider name it is injective in the scope key: two scope keys give the same
  token exactly when they are equal. The scope keys the engine builds (\<open>root\<close>,
  \<open>router:\<close> followed by the selector, \<open>component:\<close> followed by the selector) are pairwise
  different for different scopes, so one name registered in several scopes has one token
  per scope.
\<close>

theorem getToken_distinct_per_scope:
  "(getToken className scope1 = getToken className scope2) = (scope1 = scope2)
   \<and> (getToken className (''router:'' @ r1) = getToken className (''router:'' @ r2)) = (r1 = r2)
   \<and> (getToken className (''component:'' @ c1) = getToken className (''component:'' @ c2)) = (c1 = c2)
   \<and> getToken className ''root'' \<noteq> getToken className (''router:'' @ r1)
   \<and> getToken className ''root'' \<noteq> getToken className (''component:'' @ c1)
   \<and> getToken className (''router:'' @ r1) \<noteq> getToken className (''component:'' @ c1)"
  by (simp add: getToken_def)

section \<open>Setup calls\<close>

text \<open>
  Claim C6. Each setup operation is idempotent: a second call with the same arguments
  returns the state the first call returned (for the root setup, the state it produced).
  A setup call builds no object, and it leaves the registrations of every token as they were
  or gives a token that had none exactly one. In every state the engine reaches, after the
  call the scope map holds exactly one entry for the provider's name, carrying the token
  derived from the name and the scope key.
\<close>

theorem setup_idempotent:
  "setupRootContainer E (setupRootContainer E s) = setupRootContainer E s
   \<and> twice (setupComponentContainer sel Ps) s = setupComponentContainer sel Ps s
   \<and> twice (setupRouterContainer Cs Ps sel) s = setupRouterContainer Cs Ps sel s
   \<and> setup_effect s (exec (SetupRoot E) s)
   \<and> setup_effect s (exec (SetupComponent sel Ps) s)
   \<and> setup_effect s (exec (SetupRouter Cs Ps sel) s)
   \<and> filter (\<lambda>e. fst e = ctor_name E) (rootScope (exec (SetupRoot E) (run calls getInstance)))
       = [(ctor_name E, getToken (ctor_name E) ''root'')]
   \<and> (\<forall>P\<in>set Ps.
         entries_for (componentScopes (exec (SetupComponent sel Ps) (run calls getInstance))) sel (ctor_name P)
           = [(ctor_name P, getToken (ctor_name P) (''component:'' @ sel))]
       \<and> entries_for (routerScopes (exec (SetupRouter Cs Ps sel) (run calls getInstance))) sel (ctor_name P)
           = [(ctor_name P, getToken (ctor_name P) (''router:'' @ sel))])"
proof -
  have refl: "setup_effect s s" by (simp add: setup_effect_def once_refl)
  have a: "twice (setupComponentContainer sel Ps) s = setupComponentContainer sel Ps s"
    by (cases "setupComponentContainer sel Ps s")
      (simp_all add: twice_def setupComponentContainer_idem)
  have b: "twice (setupRouterContainer Cs Ps sel) s = setupRouterContainer Cs Ps sel s"
    by (cases "setupRouterContainer Cs Ps sel s")
      (simp_all add: twice_def setupRouterContainer_idem)
  have c: "setup_effect s (exec (SetupComponent sel Ps) s)"
    using refl setupComponentContainer_effect [of sel Ps s]
    by (cases "setupComponentContainer sel Ps s") (simp_all add: state_after_def)
  have d: "setup_effect s (exec (SetupRouter Cs Ps sel) s)"
    using refl setupRouterContainer_effect [of Cs Ps sel s]
    by (cases "setupRouterContainer Cs Ps sel s") (simp_all add: state_after_def)
  have e: "setup_effect s (exec (SetupRoot E) s)" by (simp add: setupRootContainer_effect)
  have f: "filter (\<lambda>e. fst e = ctor_name E) (rootScope (exec (SetupRoot E) (run calls getInstance)))
       = [(ctor_name E, getToken (ctor_name E) ''root'')]"
    using root_entry_unique [OF inv_reachable] by simp
  show ?thesis
    using setupRootContainer_idem a b c d e f
      component_entry_unique [OF inv_reachable] router_entry_unique [OF inv_reachable]
    by blast
qed

theorem setup_idempotent_witness:
  "entries_for
     (componentScopes (exec (SetupComponent ''home'' [Ctor ''Store'' 1, Ctor ''Store'' 2])
        (run [SetupComponent ''home'' [Ctor ''Store'' 1]] getInstance))) ''home'' ''Store''
     = [(''Store'', Sym ''component:home:Store'')]
   \<and> allocated (exec (SetupComponent ''home'' [Ctor ''Store'' 1, Ctor ''Store'' 2]) getInstance) = 0"
  using setup_idempotent [where sel = "''home''" and Ps = "[Ctor ''Store'' 1, Ctor ''Store'' 2]"
      and calls = "[SetupComponent ''home'' [Ctor ''Store'' 1]]" and s = getInstance
      and E = "Ctor ''Store'' 1" and Cs = "[]"]
  by (simp add: getToken_def setup_effect_def getInstance_def)

text \<open>
  Claim C10. In every state the engine reaches, the two fail-fast branches are dead: after
  the insertion of fresh maps for an absent selector both lookups succeed, so neither
  \<open>setupComponentContainer\<close> nor \<open>setupRouterContainer\<close> raises, whatever its arguments.
\<close>

theorem setup_never_throws:
  "map_of (componentScopes (ensure_component sel (run calls getInstance))) sel \<noteq> None
   \<and> map_of (componentClasses (ensure_component sel (run calls getInstance))) sel \<noteq> None
   \<and> map_of (routerScopes (ensure_router sel (run calls getInstance))) sel \<noteq> None
   \<and> map_of (routerClasses (ensure_router sel (run calls getInstance))) sel \<noteq> None
   \<and> (\<exists>s'. setupComponentContainer sel Ps (run calls getInstance) = Inr s')
   \<and> (\<exists>s'. setupRouterContainer Cs Ps sel (run calls getInstance) = Inr s')"
proof -
  let ?s = "run calls getInstance"
  have i: "inv ?s" by (rule inv_reachable)
  have c1: "map_of (componentScopes (ensure_component sel ?s)) sel \<noteq> None"
    by (rule ensure_component_has)
  have r1: "map_of (routerScopes (ensure_router sel ?s)) sel \<noteq> None"
    by (rule ensure_router_has)
  have "scopes_ok ''component:'' (componentScopes (ensure_component sel ?s))
          (componentClasses (ensure_component sel ?s)) (container (ensure_component sel ?s))"
    using inv_ensure_component [OF i] unfolding inv_def by blast
  with c1 have c2: "map_of (componentClasses (ensure_component sel ?s)) sel \<noteq> None"
    unfolding scopes_ok_def by fastforce
  have "scopes_ok ''router:'' (routerScopes (ensure_router sel ?s))
          (routerClasses (ensure_router sel ?s)) (container (ensure_router sel ?s))"
    using inv_ensure_router [OF i] unfolding inv_def by blast
  with r1 have r2: "map_of (routerClasses (ensure_router sel ?s)) sel \<noteq> None"
    unfolding scopes_ok_def by fastforce
  show ?thesis
    using c1 c2 r1 r2 setupComponentContainer_total [OF i] setupRouterContainer_total [OF i]
    by blast
qed

subsection \<open>Cached instances\<close>

lemma table_ok_member:
  assumes "table_ok key m cm c" and "(n, t) \<in> set m"
  shows "t = getToken n key \<and> c t \<noteq> []"
proof -
  from assms(1) have "distinct (map fst m)" by (simp add: table_ok_def)
  with assms(2) have "map_of m n = Some t" by simp
  with assms(1) show ?thesis by (simp add: table_ok_def)
qed

lemma scopes_ok_member:
  assumes "scopes_ok kind scopes classes c" and "(sel, m) \<in> set scopes" and "(n, t) \<in> set m"
  shows "t = getToken n (kind @ sel) \<and> c t \<noteq> []"
proof -
  from assms(1) have "distinct (map fst scopes)" by (simp add: scopes_ok_def)
  with assms(2) have "map_of scopes sel = Some m" by simp
  with assms(1) obtain cm where "table_ok (kind @ sel) m cm c" unfolding scopes_ok_def by blast
  then show ?thesis using assms(3) by (rule table_ok_member)
qed

lemma minted_registered:
  assumes "inv s" and "t \<in> minted s"
  shows "\<exists>k. t = Sym k \<and> container s (Sym k) \<noteq> []"
proof -
  from assms(2) consider
    (root) n where "(n, t) \<in> set (rootScope s)"
    | (router) sel m n where "(sel, m) \<in> set (routerScopes s)" "(n, t) \<in> set m"
    | (component) sel m n where "(sel, m) \<in> set (componentScopes s)" "(n, t) \<in> set m"
    unfolding minted_def by fastforce
  then show ?thesis
  proof cases
    case root
    from assms(1) have "table_ok ''root'' (rootScope s) (rootClasses s) (container s)"
      by (simp add: inv_def)
    from table_ok_member [OF this root] show ?thesis by (auto simp: getToken_def)
  next
    case router
    from assms(1) have "scopes_ok ''router:'' (routerScopes s) (routerClasses s) (container s)"
      by (simp add: inv_def)
    from scopes_ok_member [OF this router] show ?thesis by (auto simp: getToken_def)
  next
    case component
    from assms(1) have "scopes_ok ''component:'' (componentScopes s) (componentClasses s) (container s)"
      by (simp add: inv_def)
    from scopes_ok_member [OF this component] show ?thesis by (auto simp: getToken_def)
  qed
qed

lemma container_resolve_cached:
  assumes "cached s t = Some i"
  shows "container_resolve t s = (Inr i, s)"
proof (cases "container s t")
  case Nil
  with assms show ?thesis by (simp add: cached_def)
next
  case (Cons r rs)
  with assms show ?thesis
    by (auto simp: cached_def container_resolve_def split: provider.splits if_splits)
qed

lemma container_resolve_keeps_cached:
  assumes "cached s t = Some i" and "container_resolve t' s = (res, s')"
  shows "cached s' t = Some i"
proof (cases "t' = t")
  case True
  with assms container_resolve_cached [OF assms(1)] show ?thesis by simp
next
  case False
  have "container s' t = container s t"
    using assms(2) False
    by (auto simp: container_resolve_def
        split: list.splits provider.splits if_splits option.splits)
  with assms(1) show ?thesis by (simp add: cached_def)
qed

lemma container_resolve_first:
  assumes ok: "registry_ok (container s) (allocated s)" and ne: "container s (Sym k) \<noteq> []"
  shows "\<exists>i s'. container_resolve (Sym k) s = (Inr i, s') \<and> cached s' (Sym k) = Some i
           \<and> (cached s (Sym k) = None \<longrightarrow> (\<exists>P. i = Obj (allocated s) P))"
proof -
  from ne obtain r rs where c: "container s (Sym k) = r # rs" by (cases "container s (Sym k)") auto
  have "last (r # rs) \<in> set (container s (Sym k))" unfolding c by (rule last_in_set) simp
  from registry_ok_sym [OF ok this]
  have nv: "\<not> is_value_provider (reg_provider (last (r # rs)))"
    and l: "reg_lifecycle (last (r # rs)) = Singleton" by simp_all
  from nv obtain P where p: "reg_provider (last (r # rs)) = UseClass P"
    by (cases "reg_provider (last (r # rs))") (auto simp: is_value_provider_def)
  show ?thesis
  proof (cases "reg_instance (last (r # rs))")
    case (Some i)
    then have "cached s (Sym k) = Some i" using c p l by (simp add: cached_def)
    with container_resolve_cached [OF this] show ?thesis by simp
  next
    case None
    then show ?thesis using c p l
      by (simp add: container_resolve_def cached_def)
  qed
qed

lemma cached_bound:
  assumes "registry_ok (container s) (allocated s)" and "cached s t = Some i"
  shows "\<exists>j P. i = Obj j P \<and> j < allocated s"
proof -
  from assms(2) obtain r rs where c: "container s t = r # rs"
    and i: "reg_instance (last (r # rs)) = Some i"
    by (cases "container s t")
      (auto simp: cached_def split: provider.splits if_splits)
  have "last (r # rs) \<in> set (container s t)" unfolding c by (rule last_in_set) simp
  with assms(1) have "reg_ok (allocated s) t (last (r # rs))" by (simp add: registry_ok_def)
  with i show ?thesis by (cases i) (simp_all add: reg_ok_def)
qed

lemma once_keeps_cached:
  assumes "cached s t = Some i" and "once (container s) (container s')"
  shows "cached s' t = Some i"
proof -
  from assms(1) have "container s t \<noteq> []" by (auto simp: cached_def)
  moreover from assms(2)
  have "container s' t = container s t \<or> (container s t = [] \<and> length (container s' t) = 1)"
    by (simp add: once_def)
  ultimately have "container s' t = container s t" by simp
  with assms(1) show ?thesis by (simp add: cached_def)
qed

lemma resolve_keeps_cached:
  assumes "cached s t = Some i" and "resolve n a b k s = (res, s')"
  shows "cached s' t = Some i"
  using resolve_cases [OF assms(2)] assms(1) container_resolve_keeps_cached by blast

lemma exec_keeps_cached:
  assumes "cached s t = Some i" and "\<not> invalidating call"
  shows "cached (exec call s) t = Some i"
proof (cases call)
  case (SetContext a b)
  with assms(1) show ?thesis by (simp add: setContext_def cached_def)
next
  case ClearContext
  with assms(1) show ?thesis by (simp add: clearContext_def cached_def)
next
  case (SetupRoot E)
  have "setup_effect s (exec (SetupRoot E) s)" by (simp add: setupRootContainer_effect)
  then show ?thesis unfolding SetupRoot using once_keeps_cached [OF assms(1)]
    by (simp add: setup_effect_def)
next
  case (SetupComponent sel Ps)
  show ?thesis
  proof (cases "setupComponentContainer sel Ps s")
    case (Inl e)
    with assms(1) show ?thesis unfolding SetupComponent by (simp add: state_after_def)
  next
    case (Inr s')
    from setupComponentContainer_effect [OF Inr] have "once (container s) (container s')"
      by (simp add: setup_effect_def)
    from once_keeps_cached [OF assms(1) this] show ?thesis
      unfolding SetupComponent by (simp add: Inr state_after_def)
  qed
next
  case (SetupRouter Cs Ps sel)
  show ?thesis
  proof (cases "setupRouterContainer Cs Ps sel s")
    case (Inl e)
    with assms(1) show ?thesis unfolding SetupRouter by (simp add: state_after_def)
  next
    case (Inr s')
    from setupRouterContainer_effect [OF Inr] have "once (container s) (container s')"
      by (simp add: setup_effect_def)
    from once_keeps_cached [OF assms(1) this] show ?thesis
      unfolding SetupRouter by (simp add: Inr state_after_def)
  qed
next
  case (Resolve n a b k)
  show ?thesis unfolding Resolve
    using resolve_keeps_cached [OF assms(1), of n a b k]
    by (cases "resolve n a b k s") simp
next
  case (Get n)
  show ?thesis unfolding Get
    using resolve_keeps_cached [OF assms(1), of n "currentSelector s" "currentRouterSelector s" None]
    by (cases "resolve n (currentSelector s) (currentRouterSelector s) None s") (simp add: get_def)
next
  case (ResetScope k sel)
  with assms(2) show ?thesis by simp
next
  case (ResetClass n)
  with assms(2) show ?thesis by simp
next
  case ResetAll
  with assms(2) show ?thesis by simp
qed

lemma run_keeps_cached:
  assumes "cached s t = Some i" and "\<forall>c\<in>set calls. \<not> invalidating c"
  shows "cached (run calls s) t = Some i"
  using assms unfolding run_def
proof (induction calls arbitrary: s)
  case Nil
  then show ?case by simp
next
  case (Cons c calls)
  from Cons.prems have "cached (exec c s) t = Some i" by (simp add: exec_keeps_cached)
  then show ?case using Cons.IH Cons.prems(2) by simp
qed

lemma register_in_scope_map:
  assumes "register_in_scope key P (m, cm, c) = (m', cm', c')" and "map_of m n = Some t"
  shows "map_of m' n = Some t"
  using assms by (auto simp: register_in_scope_def update_conv' split: if_splits)

lemma setupComponentContainer_root:
  assumes "setupComponentContainer sel Ps s = Inr s'"
  shows "rootScope s' = rootScope s"
  using assms
  by (auto simp: setupComponentContainer_def ensure_component_def split: option.splits prod.splits)

lemma setupRouterContainer_root:
  assumes "setupRouterContainer Cs Ps sel s = Inr s'"
  shows "rootScope s' = rootScope s"
  using assms
  by (auto simp: setupRouterContainer_def ensure_router_def split: option.splits prod.splits)

lemma resolve_same_tables:
  assumes "resolve n a b k s = (res, s')"
  shows "same_tables s s'"
  using resolve_cases [OF assms] container_resolve_frame same_tables_refl by blast

lemma exec_rootScope:
  assumes "map_of (rootScope s) n = Some t"
  shows "map_of (rootScope (exec call s)) n = Some t"
proof (cases call)
  case (SetContext a b)
  with assms show ?thesis by (simp add: setContext_def)
next
  case ClearContext
  with assms show ?thesis by (simp add: clearContext_def)
next
  case (SetupRoot E)
  obtain m' cm' c' where
    step: "register_in_scope ''root'' E (rootScope s, rootClasses s, container s) = (m', cm', c')"
    by (cases "register_in_scope ''root'' E (rootScope s, rootClasses s, container s)") auto
  from register_in_scope_map [OF step assms] show ?thesis
    unfolding SetupRoot by (simp add: setupRootContainer_def step)
next
  case (SetupComponent sel Ps)
  show ?thesis unfolding SetupComponent using assms setupComponentContainer_root [of sel Ps s]
    by (cases "setupComponentContainer sel Ps s") (simp_all add: state_after_def)
next
  case (SetupRouter Cs Ps sel)
  show ?thesis unfolding SetupRouter using assms setupRouterContainer_root [of Cs Ps sel s]
    by (cases "setupRouterContainer Cs Ps sel s") (simp_all add: state_after_def)
next
  case (Resolve n' a b k)
  show ?thesis unfolding Resolve using assms resolve_same_tables [of n' a b k s]
    by (cases "resolve n' a b k s") (simp add: same_tables_def)
next
  case (Get n')
  show ?thesis unfolding Get
    using assms resolve_same_tables [of n' "currentSelector s" "currentRouterSelector s" None s]
    by (cases "resolve n' (currentSelector s) (currentRouterSelector s) None s")
      (simp add: same_tables_def get_def)
next
  case (ResetScope k sel)
  with assms show ?thesis by (simp add: resetScope_def reregisterAll_def)
next
  case (ResetClass n')
  with assms show ?thesis by (simp add: resetClass_def reregisterAll_def)
next
  case ResetAll
  with assms show ?thesis by (simp add: resetAll_def)
qed

lemma run_rootScope:
  assumes "map_of (rootScope s) n = Some t"
  shows "map_of (rootScope (run calls s)) n = Some t"
  using assms unfolding run_def
proof (induction calls arbitrary: s)
  case Nil
  then show ?case by simp
next
  case (Cons c calls)
  from Cons.prems have "map_of (rootScope (exec c s)) n = Some t" by (rule exec_rootScope)
  then show ?case using Cons.IH by simp
qed

lemma resolve_root:
  assumes "n \<noteq> ''DependencyManagement''" and "map_of (rootScope s) n = Some t"
    and "container s t \<noteq> []"
  shows "resolve n None None None s = resolve_token t s"
  using assms
  by (simp add: resolve_def selected_token_def parent_selector_def truthy_def usable_def
      isRegistered_def)

lemma resolve_token_cached:
  assumes "cached s t = Some i"
  shows "resolve_token t s = (Inr (Some i), s)"
  using container_resolve_cached [OF assms] by (simp add: resolve_token_def)

lemma cached_nonempty: "cached s t = Some i \<Longrightarrow> container s t \<noteq> []"
  by (auto simp: cached_def)

lemma minted_root: "map_of (rootScope s) n = Some t \<Longrightarrow> t \<in> minted s"
  unfolding minted_def using map_of_SomeD [of "rootScope s" n t] by force

section \<open>Singleton instances\<close>

text \<open>
  Claim C2. Let \<open>t\<close> be a token of some scope map in a state the engine reaches. Resolving
  \<open>t\<close> returns an instance, and after any further calls none of which is a reset, resolving
  \<open>t\<close> returns that same instance and changes nothing. In particular, when \<open>t\<close> is the root
  token of a provider name (other than the reserved name of the engine), two resolutions
  of the name with no selector, with any such calls between them, return the same instance.
\<close>

theorem singleton_until_invalidation:
  assumes "t \<in> minted (run pre getInstance)" and "\<forall>c\<in>set calls. \<not> invalidating c"
  shows "\<exists>i s1. container_resolve t (run pre getInstance) = (Inr i, s1)
           \<and> container_resolve t (run calls s1) = (Inr i, run calls s1)
           \<and> (\<forall>n. n \<noteq> ''DependencyManagement'' \<and> map_of (rootScope (run pre getInstance)) n = Some t
                 \<longrightarrow> resolve n None None None (run pre getInstance) = (Inr (Some i), s1)
                     \<and> resolve n None None None (run calls s1) = (Inr (Some i), run calls s1))"
proof -
  let ?s = "run pre getInstance"
  have i: "inv ?s" by (rule inv_reachable)
  from minted_registered [OF i assms(1)] obtain k where k: "t = Sym k" "container ?s (Sym k) \<noteq> []"
    by blast
  from i have ok: "registry_ok (container ?s) (allocated ?s)" by (simp add: inv_def)
  from container_resolve_first [OF ok k(2)] k(1)
  obtain x s1 where first: "container_resolve t ?s = (Inr x, s1)" and c1: "cached s1 t = Some x"
    by auto
  have c2: "cached (run calls s1) t = Some x" using c1 assms(2) by (rule run_keeps_cached)
  have again: "container_resolve t (run calls s1) = (Inr x, run calls s1)"
    using c2 by (rule container_resolve_cached)
  have "resolve n None None None ?s = (Inr (Some x), s1)
        \<and> resolve n None None None (run calls s1) = (Inr (Some x), run calls s1)"
    if n: "n \<noteq> ''DependencyManagement''" and r: "map_of (rootScope ?s) n = Some t" for n
  proof -
    have a: "resolve n None None None ?s = (Inr (Some x), s1)"
      using resolve_root [OF n r] k first by (simp add: resolve_token_def)
    have "same_tables ?s s1" using a by (rule resolve_same_tables)
    with r have "map_of (rootScope s1) n = Some t" by (simp add: same_tables_def)
    then have r2: "map_of (rootScope (run calls s1)) n = Some t" by (rule run_rootScope)
    have "resolve n None None None (run calls s1) = (Inr (Some x), run calls s1)"
      using resolve_root [OF n r2 cached_nonempty [OF c2]] resolve_token_cached [OF c2] by simp
    with a show ?thesis by simp
  qed
  with first again show ?thesis by blast
qed

theorem singleton_until_invalidation_witness:
  "\<exists>i s1. resolve ''Logger'' None None None (run [SetupRoot (Ctor ''Logger'' 0)] getInstance)
             = (Inr (Some i), s1)
         \<and> resolve ''Logger'' None None None
             (run [SetupComponent ''home'' [Ctor ''Logger'' 1], Resolve ''Logger'' (Some ''home'') None None] s1)
             = (Inr (Some i),
                run [SetupComponent ''home'' [Ctor ''Logger'' 1], Resolve ''Logger'' (Some ''home'') None None] s1)"
proof -
  let ?pre = "[SetupRoot (Ctor ''Logger'' 0)]"
  let ?calls = "[SetupComponent ''home'' [Ctor ''Logger'' 1], Resolve ''Logger'' (Some ''home'') None None]"
  have r: "map_of (rootScope (run ?pre getInstance)) ''Logger'' = Some (Sym ''root:Logger'')"
    by (simp add: run_def setupRootContainer_def register_in_scope_def getInstance_def getToken_def)
  have h1: "Sym ''root:Logger'' \<in> minted (run ?pre getInstance)" using r by (rule minted_root)
  have h2: "\<forall>c\<in>set ?calls. \<not> invalidating c" by simp
  from singleton_until_invalidation [OF h1 h2] r show ?thesis by fastforce
qed

lemma reset_grows:
  assumes "inv s"
  shows "grows createChildContainer (container (reregisterAll (s\<lparr>container := createChildContainer\<rparr>)))"
proof -
  let ?c1 = "reregister_table (rootScope s) (rootClasses s) createChildContainer"
  let ?c2 = "reregister_scopes (routerScopes s) (routerClasses s) ?c1"
  let ?c3 = "reregister_scopes (componentScopes s) (componentClasses s) ?c2"
  from assms have r: "table_ok ''root'' (rootScope s) (rootClasses s) (container s)"
    and ro: "scopes_ok ''router:'' (routerScopes s) (routerClasses s) (container s)"
    and co: "scopes_ok ''component:'' (componentScopes s) (componentClasses s) (container s)"
    by (simp_all add: inv_def)
  have g1: "grows createChildContainer ?c1"
    using table_ok_sym [OF r] by (rule reregister_table_grows)
  have g2: "grows ?c1 ?c2" using scopes_ok_sym [OF ro] by (rule reregister_scopes_grows)
  have g3: "grows ?c2 ?c3" using scopes_ok_sym [OF co] by (rule reregister_scopes_grows)
  show ?thesis
    using grows_trans [OF grows_trans [OF g1 g2] g3] by (simp add: reregisterAll_def)
qed

lemma grows_from_empty_uncached:
  assumes "grows createChildContainer (container s)"
  shows "cached s t = None"
proof (cases "container s t")
  case Nil
  then show ?thesis by (simp add: cached_def)
next
  case (Cons r rs)
  from assms obtain xs where "container s t = xs"
    and xs: "\<forall>x\<in>set xs. (\<exists>P. x = Registration (UseClass P) Singleton None) \<and> (\<exists>k. t = Sym k)"
    unfolding grows_def createChildContainer_def by auto
  moreover have "last (r # rs) \<in> set (container s t)" unfolding Cons by (rule last_in_set) simp
  ultimately obtain P where "last (r # rs) = Registration (UseClass P) Singleton None" by blast
  then show ?thesis using Cons by (simp add: cached_def)
qed

lemma minted_reset:
  "minted (reregisterAll (s\<lparr>container := createChildContainer\<rparr>)) = minted s"
  by (simp add: minted_def reregisterAll_def)

lemma fresh_not_cached:
  assumes "registry_ok (container s) (allocated s)"
  shows "cached s t \<noteq> Some (Obj (allocated s) P)"
proof
  assume "cached s t = Some (Obj (allocated s) P)"
  from cached_bound [OF assms this] show False by simp
qed

section \<open>Resets\<close>

text \<open>
  Let \<open>t\<close> be a token of some scope map in a state the engine reaches. After
  \<open>resetScope\<close> (and \<open>resetClass\<close>, which does the same), \<open>t\<close> is still in its scope map and is
  registered, and resolving it returns an object that was not cached for any token
  before the reset.
\<close>

lemma reset_keeps_tokens:
  assumes "t \<in> minted (run calls getInstance)"
  shows "resetClass n (run calls getInstance) = resetScope k sel (run calls getInstance)
         \<and> t \<in> minted (resetScope k sel (run calls getInstance))
         \<and> isRegistered (container (resetScope k sel (run calls getInstance))) t
         \<and> (\<exists>j P s'. container_resolve t (resetScope k sel (run calls getInstance)) = (Inr (Obj j P), s')
               \<and> cached s' t = Some (Obj j P)
               \<and> (\<forall>t'. cached (run calls getInstance) t' \<noteq> Some (Obj j P)))"
proof -
  let ?s = "run calls getInstance"
  let ?r = "reregisterAll (?s\<lparr>container := createChildContainer\<rparr>)"
  have i: "inv ?s" by (rule inv_reachable)
  have ir: "inv ?r" using i by (rule inv_reset)
  have m: "t \<in> minted ?r" using assms by (simp add: minted_reset)
  from minted_registered [OF ir m] obtain q where q: "t = Sym q" "container ?r (Sym q) \<noteq> []"
    by blast
  from ir have ok: "registry_ok (container ?r) (allocated ?r)" by (simp add: inv_def)
  from i have ok0: "registry_ok (container ?s) (allocated ?s)" by (simp add: inv_def)
  have un: "cached ?r t = None" using reset_grows [OF i] by (rule grows_from_empty_uncached)
  have al: "allocated ?r = allocated ?s" by (simp add: reregisterAll_def)
  from container_resolve_first [OF ok q(2)] q(1) un al
  obtain P s' where res: "container_resolve t ?r = (Inr (Obj (allocated ?s) P), s')"
    and c: "cached s' t = Some (Obj (allocated ?s) P)"
    by auto
  have "\<forall>t'. cached ?s t' \<noteq> Some (Obj (allocated ?s) P)"
    using fresh_not_cached [OF ok0] by blast
  with res c have "\<exists>j P s'. container_resolve t ?r = (Inr (Obj j P), s')
               \<and> cached s' t = Some (Obj j P) \<and> (\<forall>t'. cached ?s t' \<noteq> Some (Obj j P))"
    by blast
  moreover have "isRegistered (container ?r) t" using q by (simp add: isRegistered_def)
  ultimately show ?thesis using m by (simp add: resetScope_def resetClass_def)
qed

text \<open>
  The registrations a reset leaves for a token are exactly the replay of the retained
  classes: the replay has no guard against a token that is registered already, so every
  entry that carries the token adds a registration, and resolution uses the last.
\<close>

lemma reregister_table_at: "reregister_table m cm c t = c t @ replay_table t m cm"
proof (induction m arbitrary: c)
  case Nil
  then show ?case by (simp add: reregister_table_def replay_table_def)
next
  case (Cons e m)
  obtain n tok where e: "e = (n, tok)" by (cases e)
  let ?c1 = "case map_of cm n of None \<Rightarrow> c | Some P \<Rightarrow> register tok (UseClass P) Singleton c"
  have u: "reregister_table (e # m) cm c = reregister_table m cm ?c1"
    by (simp add: reregister_table_def e)
  have h: "?c1 t = c t @ (if tok = t
              then (case map_of cm n of None \<Rightarrow> [] | Some P \<Rightarrow> [Registration (UseClass P) Singleton None])
              else [])"
    by (simp add: register_def split: option.splits)
  have r: "replay_table t (e # m) cm = (if tok = t
              then (case map_of cm n of None \<Rightarrow> [] | Some P \<Rightarrow> [Registration (UseClass P) Singleton None])
              else []) @ replay_table t m cm"
    by (simp add: replay_table_def e)
  show ?case unfolding u Cons.IH h r by simp
qed

lemma reregister_scopes_at: "reregister_scopes scopes classes c t = c t @ replay_scopes t scopes classes"
proof (induction scopes arbitrary: c)
  case Nil
  then show ?case by (simp add: reregister_scopes_def replay_scopes_def)
next
  case (Cons e scopes)
  obtain sel m where e: "e = (sel, m)" by (cases e)
  let ?c1 = "case map_of classes sel of None \<Rightarrow> c | Some cm \<Rightarrow> reregister_table m cm c"
  have h: "?c1 t = c t @ (case map_of classes sel of None \<Rightarrow> [] | Some cm \<Rightarrow> replay_table t m cm)"
    by (simp add: reregister_table_at split: option.splits)
  have r: "replay_scopes t ((sel, m) # scopes) classes
             = (case map_of classes sel of None \<Rightarrow> [] | Some cm \<Rightarrow> replay_table t m cm)
               @ replay_scopes t scopes classes"
    by (simp add: replay_scopes_def)
  show ?case unfolding e reregister_scopes_Cons Cons.IH h r by simp
qed

lemma reset_registrations:
  "container (resetScope k sel s) t
     = replay_table t (rootScope s) (rootClasses s)
       @ replay_scopes t (routerScopes s) (routerClasses s)
       @ replay_scopes t (componentScopes s) (componentClasses s)"
  by (simp add: resetScope_def reregisterAll_def reregister_scopes_at reregister_table_at
      createChildContainer_def)


lemma clearInstances_uncached: "cached (resetAll s) t = None"
proof (cases "container (resetAll s) t")
  case Nil
  then show ?thesis by (simp add: cached_def)
next
  case (Cons r rs)
  have "last (r # rs) \<in> set (container (resetAll s) t)" unfolding Cons by (rule last_in_set) simp
  then have "reg_instance (last (r # rs)) = None"
    by (auto simp: resetAll_def clearInstances_def)
  then show ?thesis using Cons
    by (simp add: cached_def del: last.simps split: provider.splits)
qed

lemma clearInstances_providers:
  assumes "registry_ok c n"
  shows "map reg_provider (clearInstances c (Sym k)) = map reg_provider (c (Sym k))
         \<and> map reg_lifecycle (clearInstances c (Sym k)) = map reg_lifecycle (c (Sym k))"
proof -
  have "\<forall>r\<in>set (c (Sym k)). \<not> is_value_provider (reg_provider r)"
    using registry_ok_sym [OF assms] by blast
  then have "filter (\<lambda>r. \<not> is_value_provider (reg_provider r)) (c (Sym k)) = c (Sym k)"
    by simp
  then show ?thesis by (simp add: clearInstances_def comp_def)
qed

text \<open>
  In every state the engine reaches, \<open>resetAll\<close> leaves every scope map, class
  map, membership record and the context as they were and builds nothing; every token of
  a scope map keeps its registrations, with the same provider and lifecycle. Resolving
  such a token next, with no registration step in between, returns an object that was not
  cached for any token before, and from then on, until the next reset, resolving the token
  returns that object.
\<close>

lemma resetAll_keeps_scope_tokens:
  assumes "t \<in> minted (run calls getInstance)"
  shows "same_tables (run calls getInstance) (resetAll (run calls getInstance))
         \<and> allocated (resetAll (run calls getInstance)) = allocated (run calls getInstance)
         \<and> map reg_provider (container (resetAll (run calls getInstance)) t)
             = map reg_provider (container (run calls getInstance) t)
         \<and> map reg_lifecycle (container (resetAll (run calls getInstance)) t)
             = map reg_lifecycle (container (run calls getInstance) t)
         \<and> isRegistered (container (resetAll (run calls getInstance))) t
         \<and> (\<exists>j P s1. container_resolve t (resetAll (run calls getInstance)) = (Inr (Obj j P), s1)
               \<and> (\<forall>t'. cached (run calls getInstance) t' \<noteq> Some (Obj j P))
               \<and> (\<forall>later. (\<forall>c\<in>set later. \<not> invalidating c)
                     \<longrightarrow> container_resolve t (run later s1) = (Inr (Obj j P), run later s1)))"
proof -
  let ?s = "run calls getInstance"
  have i: "inv ?s" by (rule inv_reachable)
  have ir: "inv (resetAll ?s)" using i by (rule inv_resetAll)
  from i have ok0: "registry_ok (container ?s) (allocated ?s)" by (simp add: inv_def)
  from ir have ok: "registry_ok (container (resetAll ?s)) (allocated (resetAll ?s))"
    by (simp add: inv_def)
  have m: "t \<in> minted (resetAll ?s)" using assms by (simp add: minted_def resetAll_def)
  from minted_registered [OF ir m] obtain q where q: "t = Sym q" "container (resetAll ?s) (Sym q) \<noteq> []"
    by blast
  have al: "allocated (resetAll ?s) = allocated ?s" by (simp add: resetAll_def)
  have st: "same_tables ?s (resetAll ?s)" by (simp add: same_tables_def resetAll_def)
  have pr: "map reg_provider (container (resetAll ?s) t) = map reg_provider (container ?s t)
            \<and> map reg_lifecycle (container (resetAll ?s) t) = map reg_lifecycle (container ?s t)"
    using clearInstances_providers [OF ok0] q(1) by (simp add: resetAll_def)
  from container_resolve_first [OF ok q(2)] q(1) clearInstances_uncached [of ?s t] al
  obtain P s1 where res: "container_resolve t (resetAll ?s) = (Inr (Obj (allocated ?s) P), s1)"
    and c: "cached s1 t = Some (Obj (allocated ?s) P)"
    by auto
  have fresh: "\<forall>t'. cached ?s t' \<noteq> Some (Obj (allocated ?s) P)"
    using fresh_not_cached [OF ok0] by blast
  have "\<forall>later. (\<forall>c\<in>set later. \<not> invalidating c)
          \<longrightarrow> container_resolve t (run later s1) = (Inr (Obj (allocated ?s) P), run later s1)"
    using run_keeps_cached [OF c] container_resolve_cached by blast
  with res fresh have "\<exists>j P s1. container_resolve t (resetAll ?s) = (Inr (Obj j P), s1)
               \<and> (\<forall>t'. cached ?s t' \<noteq> Some (Obj j P))
               \<and> (\<forall>later. (\<forall>c\<in>set later. \<not> invalidating c)
                     \<longrightarrow> container_resolve t (run later s1) = (Inr (Obj j P), run later s1))"
    by blast
  moreover have "isRegistered (container (resetAll ?s)) t" using q by (simp add: isRegistered_def)
  ultimately show ?thesis using st al pr by blast
qed

lemma clearInstances_str:
  assumes "registry_ok c n"
  shows "clearInstances c (Str k) = []"
proof -
  have "\<forall>r\<in>set (c (Str k)). is_value_provider (reg_provider r)"
  proof
    fix r
    assume "r \<in> set (c (Str k))"
    with assms have "reg_ok n (Str k) r" unfolding registry_ok_def by blast
    then show "is_value_provider (reg_provider r)" by (simp add: reg_ok_def)
  qed
  then have "filter (\<lambda>r. \<not> is_value_provider (reg_provider r)) (c (Str k)) = []"
    by (simp add: filter_empty_conv)
  then show ?thesis by (simp add: clearInstances_def)
qed

text \<open>
  Claim C7. \<open>resetAll\<close> is to clear cached instances only and to leave every registration
  as it is. For the tokens of the scope maps it does. The registration the constructor
  made for the engine under the string token \<open>DependencyManagement\<close> caches nothing, yet
  \<open>resetAll\<close> removes it, in the state built by the constructor and after any sequence of
  calls: clearing the instances of the container drops every registration made with a
  value.
\<close>

theorem resetAll_drops_engine_registration:
  "isRegistered (container getInstance) (Str ''DependencyManagement'')
   \<and> cached getInstance (Str ''DependencyManagement'') = None
   \<and> \<not> isRegistered (container (resetAll getInstance)) (Str ''DependencyManagement'')
   \<and> \<not> isRegistered (container (resetAll (run calls getInstance))) (Str ''DependencyManagement'')"
proof -
  have a: "isRegistered (container getInstance) (Str ''DependencyManagement'')" by code_simp
  have b: "cached getInstance (Str ''DependencyManagement'') = None" by code_simp
  have c: "\<not> isRegistered (container (resetAll getInstance)) (Str ''DependencyManagement'')"
    by code_simp
  have "registry_ok (container (run calls getInstance)) (allocated (run calls getInstance))"
    using inv_reachable [of calls] by (simp add: inv_def)
  from clearInstances_str [OF this]
  have d: "\<not> isRegistered (container (resetAll (run calls getInstance))) (Str ''DependencyManagement'')"
    by (simp add: resetAll_def isRegistered_def)
  from a b c d show ?thesis by blast
qed

section \<open>Resolution\<close>

lemma scope_token_registered:
  assumes "scopes_ok kind scopes classes c" and "scope_token scopes sel n = Some t"
  shows "t = getToken n (kind @ sel) \<and> c t \<noteq> []"
proof -
  from assms(2) obtain m where m: "map_of scopes sel = Some m" "map_of m n = Some t"
    by (auto simp: scope_token_def split: option.splits)
  from assms(1) m(1) obtain cm where "table_ok (kind @ sel) m cm c"
    unfolding scopes_ok_def by blast
  with m(2) show ?thesis by (simp add: table_ok_def)
qed

lemma resolve_token_registered:
  assumes "inv s" and "t = getToken n key" and "container s t \<noteq> []"
  shows "\<exists>i s'. resolve_token t s = (Inr (Some i), s') \<and> cached s' t = Some i"
proof -
  from assms(1) have ok: "registry_ok (container s) (allocated s)" by (simp add: inv_def)
  from assms(2,3) have "container s (Sym (key @ '':'' @ n)) \<noteq> []" by (simp add: getToken_def)
  from container_resolve_first [OF ok this] assms(2) show ?thesis
    by (auto simp: resolve_token_def getToken_def)
qed

lemma usable_not_selected:
  assumes "\<not> usable s (lookup_in scopes sel n)"
  shows "\<not> usable s (selected_token scopes sel n)"
  using assms
  by (cases sel) (auto simp: lookup_in_def selected_token_def usable_def)

text \<open>
  Claim C1, as amended. Let a provider name other than the reserved name of the engine be
  in the component map of a non-empty selector, in the router map of a non-empty selector
  and in the root map of a state the engine reaches. Resolving the name with both
  selectors resolves the component token; with the router selector only, the router
  token; with no selector and no owner, the root token. The three tokens are the ones
  derived from the name and the three scope keys, and each resolution returns the instance
  that is then cached for its token.
\<close>

theorem resolution_order:
  assumes "className \<noteq> ''DependencyManagement''"
    and "componentSelector \<noteq> []" and "routerSelector \<noteq> []"
    and "scope_token (componentScopes (run calls getInstance)) componentSelector className = Some tc"
    and "scope_token (routerScopes (run calls getInstance)) routerSelector className = Some tr"
    and "map_of (rootScope (run calls getInstance)) className = Some t0"
  shows "resolve className (Some componentSelector) (Some routerSelector) owner (run calls getInstance)
           = resolve_token tc (run calls getInstance)
         \<and> resolve className None (Some routerSelector) owner (run calls getInstance)
           = resolve_token tr (run calls getInstance)
         \<and> resolve className None None None (run calls getInstance)
           = resolve_token t0 (run calls getInstance)
         \<and> tc = getToken className (''component:'' @ componentSelector)
         \<and> tr = getToken className (''router:'' @ routerSelector)
         \<and> t0 = getToken className ''root''
         \<and> (\<exists>i s'. resolve_token tc (run calls getInstance) = (Inr (Some i), s') \<and> cached s' tc = Some i)
         \<and> (\<exists>i s'. resolve_token tr (run calls getInstance) = (Inr (Some i), s') \<and> cached s' tr = Some i)
         \<and> (\<exists>i s'. resolve_token t0 (run calls getInstance) = (Inr (Some i), s') \<and> cached s' t0 = Some i)"
proof -
  let ?s = "run calls getInstance"
  have i: "inv ?s" by (rule inv_reachable)
  from i have co: "scopes_ok ''component:'' (componentScopes ?s) (componentClasses ?s) (container ?s)"
    and ro: "scopes_ok ''router:'' (routerScopes ?s) (routerClasses ?s) (container ?s)"
    and rt: "table_ok ''root'' (rootScope ?s) (rootClasses ?s) (container ?s)"
    by (simp_all add: inv_def)
  note c = scope_token_registered [OF co assms(4)]
  note r = scope_token_registered [OF ro assms(5)]
  from rt assms(6) have z: "t0 = getToken className ''root'' \<and> container ?s t0 \<noteq> []"
    by (simp add: table_ok_def)
  have sc: "selected_token (componentScopes ?s) (Some componentSelector) className = Some tc"
    using assms(2,4) by (simp add: selected_token_def)
  have sr: "selected_token (routerScopes ?s) (Some routerSelector) className = Some tr"
    using assms(3,5) by (simp add: selected_token_def)
  have sn: "selected_token (componentScopes ?s) None className = None"
    by (simp add: selected_token_def)
  have uc: "usable ?s (Some tc)" using conjunct2 [OF c] by (simp add: usable_def isRegistered_def)
  have ur: "usable ?s (Some tr)" using conjunct2 [OF r] by (simp add: usable_def isRegistered_def)
  have un: "\<not> usable ?s None" by (simp add: usable_def)
  have a: "resolve className (Some componentSelector) (Some routerSelector) owner ?s = resolve_token tc ?s"
    using assms(1) uc unfolding resolve_def sc by simp
  have b: "resolve className None (Some routerSelector) owner ?s = resolve_token tr ?s"
    using assms(1) ur un unfolding resolve_def sr sn by simp
  have d: "resolve className None None None ?s = resolve_token t0 ?s"
    using assms(1) assms(6) conjunct2 [OF z] by (rule resolve_root)
  show ?thesis
    using a b d c r z resolve_token_registered [OF i]
    by (intro conjI) blast+
qed

theorem resolution_order_witness:
  "fst (resolve ''P'' (Some ''c'') (Some ''r'') None
         (run [SetupComponent ''c'' [Ctor ''P'' 0], SetupRouter [] [Ctor ''P'' 1] ''r'',
               SetupRoot (Ctor ''P'' 2)] getInstance))
     = fst (resolve_token (Sym ''component:c:P'')
         (run [SetupComponent ''c'' [Ctor ''P'' 0], SetupRouter [] [Ctor ''P'' 1] ''r'',
               SetupRoot (Ctor ''P'' 2)] getInstance))
   \<and> fst (resolve ''P'' None (Some ''r'') None
         (run [SetupComponent ''c'' [Ctor ''P'' 0], SetupRouter [] [Ctor ''P'' 1] ''r'',
               SetupRoot (Ctor ''P'' 2)] getInstance))
     = fst (resolve_token (Sym ''router:r:P'')
         (run [SetupComponent ''c'' [Ctor ''P'' 0], SetupRouter [] [Ctor ''P'' 1] ''r'',
               SetupRoot (Ctor ''P'' 2)] getInstance))
   \<and> fst (resolve ''P'' None None None
         (run [SetupComponent ''c'' [Ctor ''P'' 0], SetupRouter [] [Ctor ''P'' 1] ''r'',
               SetupRoot (Ctor ''P'' 2)] getInstance))
     = fst (resolve_token (Sym ''root:P'')
         (run [SetupComponent ''c'' [Ctor ''P'' 0], SetupRouter [] [Ctor ''P'' 1] ''r'',
               SetupRoot (Ctor ''P'' 2)] getInstance))"
proof -
  let ?calls = "[SetupComponent ''c'' [Ctor ''P'' 0], SetupRouter [] [Ctor ''P'' 1] ''r'',
               SetupRoot (Ctor ''P'' 2)]"
  have h1: "''P'' \<noteq> ''DependencyManagement''" by simp
  have h2: "''c'' \<noteq> []" by simp
  have h3: "''r'' \<noteq> []" by simp
  have h4: "scope_token (componentScopes (run ?calls getInstance)) ''c'' ''P'' = Some (Sym ''component:c:P'')"
    by code_simp
  have h5: "scope_token (routerScopes (run ?calls getInstance)) ''r'' ''P'' = Some (Sym ''router:r:P'')"
    by code_simp
  have h6: "map_of (rootScope (run ?calls getInstance)) ''P'' = Some (Sym ''root:P'')"
    by code_simp
  from resolution_order [OF h1 h2 h3 h4 h5 h6, of None] show ?thesis by simp
qed

text \<open>
  The claim as stated fails for a component scope whose selector is the empty string: the
  lookup treats an empty selector as absent. With the same name provided in the component
  scope \<open>''''\<close>, in the router scope \<open>r\<close> and at root, resolving with both selectors returns
  the object of the router's class, cached for the router token; the component token is
  registered but never instantiated.
\<close>

theorem resolution_order_counterexample:
  "scope_token (componentScopes
       (run [SetupComponent '''' [Ctor ''P'' 0], SetupRouter [] [Ctor ''P'' 1] ''r'',
             SetupRoot (Ctor ''P'' 2)] getInstance)) '''' ''P'' = Some (Sym ''component::P'')
   \<and> isRegistered (container
       (run [SetupComponent '''' [Ctor ''P'' 0], SetupRouter [] [Ctor ''P'' 1] ''r'',
             SetupRoot (Ctor ''P'' 2)] getInstance)) (Sym ''component::P'')
   \<and> fst (resolve ''P'' (Some '''') (Some ''r'') None
       (run [SetupComponent '''' [Ctor ''P'' 0], SetupRouter [] [Ctor ''P'' 1] ''r'',
             SetupRoot (Ctor ''P'' 2)] getInstance)) = Inr (Some (Obj 0 (Ctor ''P'' 1)))
   \<and> cached (snd (resolve ''P'' (Some '''') (Some ''r'') None
       (run [SetupComponent '''' [Ctor ''P'' 0], SetupRouter [] [Ctor ''P'' 1] ''r'',
             SetupRoot (Ctor ''P'' 2)] getInstance))) (Sym ''router:r:P'')
       = Some (Obj 0 (Ctor ''P'' 1))
   \<and> cached (snd (resolve ''P'' (Some '''') (Some ''r'') None
       (run [SetupComponent '''' [Ctor ''P'' 0], SetupRouter [] [Ctor ''P'' 1] ''r'',
             SetupRoot (Ctor ''P'' 2)] getInstance))) (Sym ''component::P'') = None"
  by code_simp

text \<open>
  Claim C5, as amended. Let the name not be the reserved name of the engine, and let
  neither the component lookup nor the own-router lookup succeed. When a non-empty owner
  name is given whose recorded router selector is non-empty and differs from the router
  selector of the call, the resolver looks the name up in that router's map before the
  root map: a registered token found there is the one resolved; when there is none, the
  call falls back to the root map, and returns nothing when the root map has no
  registered token either.
\<close>

theorem parent_router_hop:
  assumes "className \<noteq> ''DependencyManagement''"
    and "ownerName \<noteq> []"
    and "getRouterForComponent s ownerName = Some parent"
    and "parent \<noteq> []"
    and "Some parent \<noteq> routerSelector"
    and "\<not> usable s (selected_token (componentScopes s) componentSelector className)"
    and "\<not> usable s (selected_token (routerScopes s) routerSelector className)"
  shows "(usable s (scope_token (routerScopes s) parent className) \<longrightarrow>
            resolve className componentSelector routerSelector (Some ownerName) s
              = resolve_token (the (scope_token (routerScopes s) parent className)) s)
         \<and> (\<not> usable s (scope_token (routerScopes s) parent className) \<longrightarrow>
            resolve className componentSelector routerSelector (Some ownerName) s
              = (if usable s (map_of (rootScope s) className)
                 then resolve_token (the (map_of (rootScope s) className)) s
                 else (Inr None, s)))"
proof -
  have p: "parent_selector s (Some ownerName) = Some parent"
    using assms(2,3) by (simp add: parent_selector_def)
  have t: "truthy (Some parent)" using assms(4) by (simp add: truthy_def)
  have sp: "selected_token (routerScopes s) (Some parent) className
              = scope_token (routerScopes s) parent className"
    using assms(4) by (simp add: selected_token_def)
  show ?thesis
    using assms(1,5,6,7) t unfolding resolve_def p sp by simp
qed

theorem parent_router_hop_witness:
  "resolve ''Config'' None (Some ''R2'') (Some ''R2'')
       (run [SetupRouter [ByName ''R2''] [Ctor ''Config'' 1] ''R1'',
             SetupRouter [] [Ctor ''R2'' 2] ''R2''] getInstance)
     = resolve_token (Sym ''router:R1:Config'')
       (run [SetupRouter [ByName ''R2''] [Ctor ''Config'' 1] ''R1'',
             SetupRouter [] [Ctor ''R2'' 2] ''R2''] getInstance)
   \<and> fst (resolve_token (Sym ''router:R1:Config'')
       (run [SetupRouter [ByName ''R2''] [Ctor ''Config'' 1] ''R1'',
             SetupRouter [] [Ctor ''R2'' 2] ''R2''] getInstance))
     = Inr (Some (Obj 0 (Ctor ''Config'' 1)))"
proof -
  let ?s = "run [SetupRouter [ByName ''R2''] [Ctor ''Config'' 1] ''R1'',
                 SetupRouter [] [Ctor ''R2'' 2] ''R2''] getInstance"
  have h1: "''Config'' \<noteq> ''DependencyManagement''" by simp
  have h2: "''R2'' \<noteq> []" by simp
  have h3: "getRouterForComponent ?s ''R2'' = Some ''R1''" by code_simp
  have h4: "''R1'' \<noteq> []" by simp
  have h5: "Some ''R1'' \<noteq> Some ''R2''" by simp
  have h6: "\<not> usable ?s (selected_token (componentScopes ?s) None ''Config'')" by code_simp
  have h7: "\<not> usable ?s (selected_token (routerScopes ?s) (Some ''R2'') ''Config'')" by code_simp
  have u: "usable ?s (scope_token (routerScopes ?s) ''R1'' ''Config'')" by code_simp
  have v: "the (scope_token (routerScopes ?s) ''R1'' ''Config'') = Sym ''router:R1:Config''"
    by code_simp
  have w: "fst (resolve_token (Sym ''router:R1:Config'') ?s) = Inr (Some (Obj 0 (Ctor ''Config'' 1)))"
    by code_simp
  from parent_router_hop [OF h1 h2 h3 h4 h5 h6 h7] u v w show ?thesis by simp
qed

text \<open>
  The claim as stated fails when the recorded router selector is the empty string: the
  resolver treats it as absent. Here \<open>X\<close> is a member of the router with selector \<open>''''\<close>,
  which provides \<open>Config\<close>; the root provides \<open>Config\<close> too. Resolving \<open>Config\<close> for owner
  \<open>X\<close> with router selector \<open>R2\<close> skips the owning router's map and returns the object of the
  root's class.
\<close>

theorem parent_router_hop_counterexample:
  "getRouterForComponent
       (run [SetupRouter [ByName ''X''] [Ctor ''Config'' 1] '''', SetupRoot (Ctor ''Config'' 0)] getInstance)
       ''X'' = Some ''''
   \<and> Some '''' \<noteq> Some ''R2''
   \<and> scope_token (routerScopes
       (run [SetupRouter [ByName ''X''] [Ctor ''Config'' 1] '''', SetupRoot (Ctor ''Config'' 0)] getInstance))
       '''' ''Config'' = Some (Sym ''router::Config'')
   \<and> isRegistered (container
       (run [SetupRouter [ByName ''X''] [Ctor ''Config'' 1] '''', SetupRoot (Ctor ''Config'' 0)] getInstance))
       (Sym ''router::Config'')
   \<and> fst (resolve ''Config'' None (Some ''R2'') (Some ''X'')
       (run [SetupRouter [ByName ''X''] [Ctor ''Config'' 1] '''', SetupRoot (Ctor ''Config'' 0)] getInstance))
       = Inr (Some (Obj 0 (Ctor ''Config'' 0)))
   \<and> cached (snd (resolve ''Config'' None (Some ''R2'') (Some ''X'')
       (run [SetupRouter [ByName ''X''] [Ctor ''Config'' 1] '''', SetupRoot (Ctor ''Config'' 0)] getInstance)))
       (Sym ''router::Config'') = None
   \<and> cached (snd (resolve ''Config'' None (Some ''R2'') (Some ''X'')
       (run [SetupRouter [ByName ''X''] [Ctor ''Config'' 1] '''', SetupRoot (Ctor ''Config'' 0)] getInstance)))
       (Sym ''root:Config'') = Some (Obj 0 (Ctor ''Config'' 0))"
  by code_simp

text \<open>
  Claim C8, as amended. For a name other than the reserved name of the engine, when no
  registered token is found in the component map of the given selector, in the router map
  of the given selector, in the router map of the owner's router and in the root map,
  \<open>resolve\<close> returns nothing, raises nothing and leaves the state as it is; so does \<open>get\<close>
  for the selectors of the current context.
\<close>

theorem absent_when_unregistered:
  assumes "className \<noteq> ''DependencyManagement''"
    and "\<not> usable s (lookup_in (componentScopes s) componentSelector className)"
    and "\<not> usable s (lookup_in (routerScopes s) routerSelector className)"
    and "\<not> usable s (lookup_in (routerScopes s) (owner_router s componentClassName) className)"
    and "\<not> usable s (map_of (rootScope s) className)"
  shows "resolve className componentSelector routerSelector componentClassName s = (Inr None, s)
         \<and> (componentSelector = currentSelector s \<and> routerSelector = currentRouterSelector s
              \<longrightarrow> get className s = (Inr None, s))"
proof -
  note c = usable_not_selected [OF assms(2)]
  note r = usable_not_selected [OF assms(3)]
  have par: "\<not> usable s (selected_token (routerScopes s) (parent_selector s k) className)"
    if "\<not> usable s (lookup_in (routerScopes s) (owner_router s k) className)" for k
  proof (cases k)
    case None
    then show ?thesis by (simp add: parent_selector_def selected_token_def usable_def)
  next
    case (Some n)
    show ?thesis
    proof (cases "n = []")
      case True
      with Some show ?thesis by (simp add: parent_selector_def selected_token_def usable_def)
    next
      case False
      with Some have "parent_selector s k = owner_router s k"
        by (simp add: parent_selector_def owner_router_def)
      with that show ?thesis using usable_not_selected by simp
    qed
  qed
  have none: "\<not> usable s (selected_token (routerScopes s) (parent_selector s None) className)"
    by (simp add: parent_selector_def selected_token_def usable_def)
  have a: "resolve className componentSelector routerSelector componentClassName s = (Inr None, s)"
    using assms(1,5) c r par [OF assms(4)] unfolding resolve_def by simp
  have b: "resolve className componentSelector routerSelector None s = (Inr None, s)"
    using assms(1,5) c r none unfolding resolve_def by simp
  show ?thesis using a b by (auto simp: get_def)
qed

theorem absent_when_unregistered_witness:
  "resolve ''P'' (Some ''B'') None None (run [SetupComponent ''A'' [Ctor ''P'' 0]] getInstance)
     = (Inr None, run [SetupComponent ''A'' [Ctor ''P'' 0]] getInstance)"
proof -
  let ?s = "run [SetupComponent ''A'' [Ctor ''P'' 0]] getInstance"
  have h1: "''P'' \<noteq> ''DependencyManagement''" by simp
  have h2: "\<not> usable ?s (lookup_in (componentScopes ?s) (Some ''B'') ''P'')" by code_simp
  have h3: "\<not> usable ?s (lookup_in (routerScopes ?s) None ''P'')" by code_simp
  have h4: "\<not> usable ?s (lookup_in (routerScopes ?s) (owner_router ?s None) ''P'')" by code_simp
  have h5: "\<not> usable ?s (map_of (rootScope ?s) ''P'')" by code_simp
  from absent_when_unregistered [OF h1 h2 h3 h4 h5] show ?thesis by simp
qed

text \<open>
  The claim as stated fails for the reserved name: no scope map holds it, yet in the state
  built by the constructor \<open>resolve\<close> and \<open>get\<close> return the engine, not an absent value.
\<close>

theorem absent_when_unregistered_counterexample:
  "rootScope getInstance = [] \<and> routerScopes getInstance = [] \<and> componentScopes getInstance = []
   \<and> fst (resolve ''DependencyManagement'' None None None getInstance) = Inr (Some Engine)
   \<and> fst (get ''DependencyManagement'' getInstance) = Inr (Some Engine)"
  by code_simp

section \<open>The reserved name\<close>

lemma grows_from_empty_str:
  assumes "grows createChildContainer c"
  shows "c (Str k) = []"
proof (rule ccontr)
  assume ne: "c (Str k) \<noteq> []"
  from assms obtain xs where xs: "c (Str k) = createChildContainer (Str k) @ xs"
    "\<forall>x\<in>set xs. (\<exists>P. x = Registration (UseClass P) Singleton None) \<and> (\<exists>q. Str k = Sym q)"
    unfolding grows_def by blast
  from xs(1) ne have "xs \<noteq> []" by (simp add: createChildContainer_def)
  then obtain x where "x \<in> set xs" by (cases xs) auto
  with xs(2) show False by blast
qed

lemma resolve_reserved_unregistered:
  assumes "container s (Str ''DependencyManagement'') = []"
  shows "fst (resolve ''DependencyManagement'' a b k s)
           = Inl (UnregisteredToken (Str ''DependencyManagement''))"
  using assms by (simp add: resolve_def resolve_token_def container_resolve_def)

lemma resolve_reserved_registered:
  assumes "engine_registered s"
  shows "fst (resolve ''DependencyManagement'' a b k s) = Inr (Some Engine)"
  using assms by (simp add: engine_registered_def resolve_def resolve_token_def container_resolve_def)

lemma container_resolve_keeps_value:
  assumes "container s t = [Registration (UseValue v) l None]"
    and "container_resolve t' s = (res, s')"
  shows "container s' t = container s t"
proof (cases "t' = t")
  case True
  with assms show ?thesis by (simp add: container_resolve_def)
next
  case False
  with assms(2) show ?thesis
    by (auto simp: container_resolve_def
        split: list.splits provider.splits if_splits option.splits)
qed

lemma once_keeps_registered:
  assumes "container s t \<noteq> []" and "once (container s) (container s')"
  shows "container s' t = container s t"
proof -
  from assms(2)
  have "container s' t = container s t \<or> (container s t = [] \<and> length (container s' t) = 1)"
    by (simp add: once_def)
  with assms(1) show ?thesis by simp
qed

lemma exec_keeps_engine:
  assumes "engine_registered s" and "\<not> invalidating call"
  shows "engine_registered (exec call s)"
proof -
  let ?t = "Str ''DependencyManagement''"
  from assms(1) have v: "container s ?t = [Registration (UseValue Engine) Transient None]"
    by (simp add: engine_registered_def)
  then have ne: "container s ?t \<noteq> []" by simp
  have "container (exec call s) ?t = container s ?t"
  proof (cases call)
    case (SetContext a b)
    then show ?thesis by (simp add: setContext_def)
  next
    case ClearContext
    then show ?thesis by (simp add: clearContext_def)
  next
    case (SetupRoot E)
    have "once (container s) (container (setupRootContainer E s))"
      using setupRootContainer_effect [of s E] by (simp add: setup_effect_def)
    from once_keeps_registered [OF ne this] show ?thesis unfolding SetupRoot by simp
  next
    case (SetupComponent sel Ps)
    show ?thesis
    proof (cases "setupComponentContainer sel Ps s")
      case (Inl e)
      then show ?thesis unfolding SetupComponent by (simp add: state_after_def)
    next
      case (Inr s')
      from setupComponentContainer_effect [OF Inr] have "once (container s) (container s')"
        by (simp add: setup_effect_def)
      from once_keeps_registered [OF ne this] show ?thesis
        unfolding SetupComponent by (simp add: Inr state_after_def)
    qed
  next
    case (SetupRouter Cs Ps sel)
    show ?thesis
    proof (cases "setupRouterContainer Cs Ps sel s")
      case (Inl e)
      then show ?thesis unfolding SetupRouter by (simp add: state_after_def)
    next
      case (Inr s')
      from setupRouterContainer_effect [OF Inr] have "once (container s) (container s')"
        by (simp add: setup_effect_def)
      from once_keeps_registered [OF ne this] show ?thesis
        unfolding SetupRouter by (simp add: Inr state_after_def)
    qed
  next
    case (Resolve n a b k)
    obtain res s' where r: "resolve n a b k s = (res, s')" by (cases "resolve n a b k s")
    from resolve_cases [OF r] container_resolve_keeps_value [OF v]
    have "container s' ?t = container s ?t" by auto
    then show ?thesis unfolding Resolve by (simp add: r)
  next
    case (Get n)
    obtain res s' where r: "resolve n (currentSelector s) (currentRouterSelector s) None s = (res, s')"
      by (cases "resolve n (currentSelector s) (currentRouterSelector s) None s")
    from resolve_cases [OF r] container_resolve_keeps_value [OF v]
    have "container s' ?t = container s ?t" by auto
    then show ?thesis unfolding Get by (simp add: get_def r)
  next
    case (ResetScope k sel)
    with assms(2) show ?thesis by simp
  next
    case (ResetClass n)
    with assms(2) show ?thesis by simp
  next
    case ResetAll
    with assms(2) show ?thesis by simp
  qed
  with v show ?thesis by (simp add: engine_registered_def)
qed

lemma run_keeps_engine:
  assumes "engine_registered s" and "\<forall>c\<in>set calls. \<not> invalidating c"
  shows "engine_registered (run calls s)"
  using assms unfolding run_def
proof (induction calls arbitrary: s)
  case Nil
  then show ?case by simp
next
  case (Cons c calls)
  from Cons.prems have "engine_registered (exec c s)" by (simp add: exec_keeps_engine)
  then show ?case using Cons.IH Cons.prems(2) by simp
qed

lemma engine_registered_getInstance: "engine_registered getInstance"
  by (simp add: engine_registered_def getInstance_def register_def createChildContainer_def)

text \<open>
  Claim C9. The engine registers itself as a value under the string token
  \<open>DependencyManagement\<close> in its constructor only. As long as no reset has been called,
  resolving the reserved name returns the engine. After \<open>resetScope\<close> or \<open>resetClass\<close> the
  fresh container has no such registration and the call raises, as the claim says. After
  \<open>resetAll\<close> the call raises as well, where the claim says it still returns the engine:
  clearing the instances of the container drops the registrations made with a value.
\<close>

theorem reserved_name_after_reset:
  "fst (resolve ''DependencyManagement'' a b k (resetScope kind sel (run calls getInstance)))
     = Inl (UnregisteredToken (Str ''DependencyManagement''))
   \<and> fst (resolve ''DependencyManagement'' a b k (resetClass n (run calls getInstance)))
     = Inl (UnregisteredToken (Str ''DependencyManagement''))
   \<and> fst (resolve ''DependencyManagement'' a b k (resetAll (run calls getInstance)))
     = Inl (UnregisteredToken (Str ''DependencyManagement''))
   \<and> ((\<forall>c\<in>set calls. \<not> invalidating c)
        \<longrightarrow> fst (resolve ''DependencyManagement'' a b k (run calls getInstance)) = Inr (Some Engine))"
proof -
  let ?s = "run calls getInstance"
  have i: "inv ?s" by (rule inv_reachable)
  then have ok: "registry_ok (container ?s) (allocated ?s)" by (simp add: inv_def)
  have "container (reregisterAll (?s\<lparr>container := createChildContainer\<rparr>)) (Str ''DependencyManagement'') = []"
    using reset_grows [OF i] by (rule grows_from_empty_str)
  then have r: "container (resetScope kind sel ?s) (Str ''DependencyManagement'') = []"
    and c: "container (resetClass n ?s) (Str ''DependencyManagement'') = []"
    by (simp_all add: resetScope_def resetClass_def)
  have "container (resetAll ?s) (Str ''DependencyManagement'') = []"
    using clearInstances_str [OF ok] by (simp add: resetAll_def)
  then show ?thesis
    using resolve_reserved_unregistered [OF r] resolve_reserved_unregistered [OF c]
      resolve_reserved_unregistered [of "resetAll ?s"]
      run_keeps_engine [OF engine_registered_getInstance, of calls]
      resolve_reserved_registered [of ?s]
    by blast
qed

theorem reserved_name_after_reset_witness:
  "fst (resolve ''DependencyManagement'' None None None
         (run [SetupRoot (Ctor ''Logger'' 0), Resolve ''Logger'' None None None] getInstance))
     = Inr (Some Engine)
   \<and> fst (resolve ''DependencyManagement'' None None None
         (resetAll (run [SetupRoot (Ctor ''Logger'' 0), Resolve ''Logger'' None None None] getInstance)))
     = Inl (UnregisteredToken (Str ''DependencyManagement''))"
  using reserved_name_after_reset [where calls = "[SetupRoot (Ctor ''Logger'' 0), Resolve ''Logger'' None None None]"
      and a = None and b = None and k = None]
  by simp

end
